theory Spec2Isabelle
  imports Main "HOL-Library.AList"
begin

section \<open>Strings: the Python builtins the store uses\<close>

text \<open>
  Python strings are modelled as \<open>string\<close> (character lists). No property name, property
  value, label or identifier is anything but a string (the loader reads them from CSV
  cells, the menu from \<open>input()\<close>), so the key that Python writes \<open>None\<close> is the only
  non-string value an index key takes; it is \<open>None\<close> of an option type here.
\<close>

fun py_split :: "char \<Rightarrow> string \<Rightarrow> string list" where
  "py_split sep [] = [[]]"
| "py_split sep (c # cs) =
     (if c = sep then [] # py_split sep cs
      else (case py_split sep cs of [] \<Rightarrow> [[c]] | p # ps \<Rightarrow> (c # p) # ps))"

definition digit_char :: "nat \<Rightarrow> char" where
  "digit_char n = ''0123456789'' ! (n mod 10)"

function str_nat :: "nat \<Rightarrow> string" where
  "str_nat n = (if n < 10 then [digit_char n] else str_nat (n div 10) @ [digit_char (n mod 10)])"
  by pat_completeness auto
termination
  by (relation "measure id") auto

declare str_nat.simps [simp del]

definition str :: "int \<Rightarrow> string" where
  "str i = (if i < 0 then CHR ''-'' # str_nat (nat (- i)) else str_nat (nat i))"

subsection \<open>\<open>format(value, spec)\<close> for a string value\<close>

text \<open>
  \<open>throwIfNodeAlreadyExists\<close> builds its qualifier with the f-string
  \<^verbatim>\<open>f"{node.getLabel():{node.getId()}}"\<close>: the colon stands inside the replacement
  field, so the identifier is not appended to the label but used as the \<^emph>\<open>format
  specification\<close> of the label, i.e. the string is \<open>format(label, id)\<close>. The function
  below is that builtin for a string value, following the format specification
  mini-language
  \<^verbatim>\<open>[[fill]align][sign]["z"]["#"]["0"][width][grouping]["." precision][type]\<close>:
  a string accepts no sign, no \<open>z\<close>, no \<open>#\<close>, no \<open>=\<close> alignment, no grouping and no
  type but \<open>s\<close>; it is cut to the precision and padded to the width (to the right unless
  aligned otherwise; a \<open>0\<close> before the width makes \<open>0\<close> the fill character, as CPython
  does from 3.10 on). \<open>None\<close> is the \<open>ValueError\<close> of an invalid specification. Digits
  are the ASCII digits, and widths are unbounded.
\<close>

definition is_alignment_token :: "char \<Rightarrow> bool" where
  "is_alignment_token c \<longleftrightarrow> c \<in> set ''<>=^''"

definition is_sign_element :: "char \<Rightarrow> bool" where
  "is_sign_element c \<longleftrightarrow> c \<in> set '' +-''"

definition is_digit :: "char \<Rightarrow> bool" where
  "is_digit c \<longleftrightarrow> c \<in> set ''0123456789''"

definition digit_value :: "char \<Rightarrow> nat" where
  "digit_value c = length (takeWhile (\<lambda>d. d \<noteq> c) ''0123456789'')"

definition get_integer :: "string \<Rightarrow> nat option \<times> string" where
  "get_integer cs =
     (let ds = takeWhile is_digit cs
      in (if ds = [] then None else Some (foldl (\<lambda>a d. 10 * a + digit_value d) 0 ds),
          dropWhile is_digit cs))"

definition parse_fill_align :: "string \<Rightarrow> (char option \<times> char option) \<times> string" where
  "parse_fill_align cs =
     (case cs of
        c0 # c1 # rest \<Rightarrow>
          if is_alignment_token c1 then ((Some c0, Some c1), rest)
          else if is_alignment_token c0 then ((None, Some c0), c1 # rest)
          else ((None, None), cs)
      | [c0] \<Rightarrow> if is_alignment_token c0 then ((None, Some c0), []) else ((None, None), cs)
      | [] \<Rightarrow> ((None, None), cs))"

definition parse_flag :: "(char \<Rightarrow> bool) \<Rightarrow> string \<Rightarrow> bool \<times> string" where
  "parse_flag p cs = (case cs of c # rest \<Rightarrow> if p c then (True, rest) else (False, cs) | [] \<Rightarrow> (False, cs))"

definition pad :: "char \<Rightarrow> char \<Rightarrow> nat option \<Rightarrow> string \<Rightarrow> string" where
  "pad fill align width body =
     (let total = (case width of None \<Rightarrow> length body | Some w \<Rightarrow> max w (length body));
          lpad = (if align = CHR ''>'' then total - length body
                  else if align = CHR ''^'' then (total - length body) div 2
                  else 0);
          rpad = total - length body - lpad
      in replicate lpad fill @ body @ replicate rpad fill)"

definition py_format :: "string \<Rightarrow> string \<Rightarrow> string option" where
  "py_format val spec =
     (if spec = [] then Some val
      else
        let ((fill, align), r1) = parse_fill_align spec;
            (sign, r2) = parse_flag is_sign_element r1;
            (no_neg_0, r3) = parse_flag (\<lambda>c. c = CHR ''z'') r2;
            (alternate, r4) = parse_flag (\<lambda>c. c = CHR ''#'') r3;
            (zero, r5) = (if fill = None then parse_flag (\<lambda>c. c = CHR ''0'') r4 else (False, r4));
            (width, r6) = get_integer r5;
            (comma, r7) = parse_flag (\<lambda>c. c = CHR '','') r6;
            (underscore, r8) = parse_flag (\<lambda>c. c = CHR ''_'') r7;
            (dot, r9) = parse_flag (\<lambda>c. c = CHR ''.'') r8;
            (precision, r10) = (if dot then get_integer r9 else (None, r9))
        in
          if sign \<or> no_neg_0 \<or> alternate \<or> comma \<or> underscore then None
          else if align = Some CHR ''='' then None
          else if dot \<and> precision = None then None
          else if r10 \<noteq> [] \<and> r10 \<noteq> ''s'' then None
          else
            Some (pad (case fill of Some c \<Rightarrow> c | None \<Rightarrow> if zero then CHR ''0'' else CHR '' '')
                      (case align of Some a \<Rightarrow> a | None \<Rightarrow> CHR ''<'')
                      width
                      (case precision of None \<Rightarrow> val | Some p \<Rightarrow> take p val)))"

section \<open>Exceptions\<close>

text \<open>
  Every \<open>raise\<close> of the source is \<open>raise Exception(message)\<close>; the model keeps one constructor
  per raise site. \<open>InvalidQuery\<close> (lines 329 and 349) and \<open>InvalidQueryFormat\<close> (line 144)
  are the syntax errors of a qualifier, \<open>NoNodesFound\<close> (line 150) is the failed lookup by
  id, \<open>NodeAlreadyExists\<close> (line 271) the duplicate, \<open>CannotConnectOneself\<close> (line 33) and
  \<open>ReservedPropertyId\<close> (lines 52 and 58) the invalid operations. \<open>KeyError\<close> is Python's
  own exception for a dictionary key that is absent, \<open>QueueIsEmpty\<close> is line 398. The
  \<open>isinstance\<close> checks of lines 35 and 274 cannot fail on a node reference and have no
  constructor.
\<close>

datatype error =
    InvalidQuery
  | InvalidQueryFormat
  | NoNodesFound
  | NodeAlreadyExists
  | CannotConnectOneself
  | ReservedPropertyId
  | KeyError
  | QueueIsEmpty

section \<open>The query qualifier parser\<close>

definition parseQueryClause :: "string \<Rightarrow> error + (string \<times> string)" where
  "parseQueryClause query =
     (let queryParts = py_split CHR ''='' query
      in if length queryParts = 1 then Inr (''id'', queryParts ! 0)
         else if length queryParts = 2 then Inr (queryParts ! 0, queryParts ! 1)
         else Inl InvalidQuery)"

definition parseQueryQualifier :: "string \<Rightarrow> error + (string \<times> string option \<times> string option)" where
  "parseQueryQualifier queryQualifier =
     (let queryQualifierParts = py_split CHR '':'' queryQualifier
      in if length queryQualifierParts = 2 then
           (case parseQueryClause (queryQualifierParts ! 1) of
              Inl e \<Rightarrow> Inl e
            | Inr (key, val) \<Rightarrow> Inr (queryQualifierParts ! 0, Some key, Some val))
         else if length queryQualifierParts = 1 then Inr (queryQualifierParts ! 0, None, None)
         else Inl InvalidQuery)"

section \<open>Objects and the store\<close>

text \<open>
  \<open>Node\<close> defines neither \<open>__eq__\<close> nor \<open>__hash__\<close>: two nodes are equal when they are the
  same object, and every set of nodes is a set of object identities. A node is therefore
  a reference (its position in the list of all \<open>Node\<close> objects ever stored), and the
  state carries the objects. The set objects that the index store and \<open>allIndexSets\<close>
  both point to are kept the same way, so that what \<open>unIndex\<close> removes through one name
  is gone under the other.

  A Python \<open>set\<close> is a list here, in the order of insertion. Python leaves the iteration
  order open; the properties below speak of the elements of the lists, and the invariant
  they rest on does not depend on the order. \<open>getConnections\<close>, \<open>getLabel\<close> and \<open>getProperties\<close> are the field selectors
  \<open>connections\<close>, \<open>label\<close> and \<open>properties\<close>. The property dictionary is an association
  list in insertion order, which is the order \<open>items()\<close> yields.
\<close>

type_synonym ref = nat
type_synonym sref = nat

record Node =
  label :: string
  properties :: "(string \<times> string) list"
  connections :: "ref list"

record GraphDB =
  objects :: "Node list"
  setObjects :: "ref list list"
  nodes :: "ref list"
  indexeStore :: "string \<rightharpoonup> (string option \<rightharpoonup> (string option \<rightharpoonup> sref))"
  allIndexSets :: "sref list"

type_synonym 'a outcome = "(error + 'a) \<times> GraphDB"

definition set_add :: "'a \<Rightarrow> 'a list \<Rightarrow> 'a list" where
  "set_add x xs = (if x \<in> set xs then xs else xs @ [x])"

definition set_remove :: "'a \<Rightarrow> 'a list \<Rightarrow> 'a list" where
  "set_remove x xs = removeAll x xs"

text \<open>
  A reference beyond the objects has no counterpart in Python, where every reference
  points to a live object; reading one gives an empty node (an empty set), writing one
  changes nothing.
\<close>

definition deref :: "GraphDB \<Rightarrow> ref \<Rightarrow> Node" where
  "deref s r =
     (if r < length (objects s) then objects s ! r
      else \<lparr>label = [], properties = [], connections = []\<rparr>)"

definition the_set :: "GraphDB \<Rightarrow> sref \<Rightarrow> ref list" where
  "the_set s a = (if a < length (setObjects s) then setObjects s ! a else [])"

subsection \<open>Node\<close>

definition Node_init :: "string \<Rightarrow> string \<Rightarrow> Node" where
  "Node_init ident lbl = \<lparr>label = lbl, properties = [(''id'', ident)], connections = []\<rparr>"

definition getId :: "Node \<Rightarrow> error + string" where
  "getId n = (case map_of (properties n) ''id'' of None \<Rightarrow> Inl KeyError | Some v \<Rightarrow> Inr v)"

definition getProperty :: "Node \<Rightarrow> string \<Rightarrow> string option" where
  "getProperty n propertyName = map_of (properties n) propertyName"

definition addConnection :: "ref \<Rightarrow> ref \<Rightarrow> GraphDB \<Rightarrow> unit outcome" where
  "addConnection self node s =
     (if node = self then (Inl CannotConnectOneself, s)
      else
        let s1 = s\<lparr>objects := (objects s)
                   [self := (deref s self)\<lparr>connections := set_add node (connections (deref s self))\<rparr>]\<rparr>;
            s2 = s1\<lparr>objects := (objects s1)
                   [node := (deref s1 node)\<lparr>connections := set_add self (connections (deref s1 node))\<rparr>]\<rparr>
        in (Inr (), s2))"

definition addOrUpdateProperty :: "ref \<Rightarrow> string \<Rightarrow> string \<Rightarrow> GraphDB \<Rightarrow> unit outcome" where
  "addOrUpdateProperty self propertyName val s =
     (if ''id'' = propertyName then (Inl ReservedPropertyId, s)
      else (Inr (), s\<lparr>objects := (objects s)
              [self := (deref s self)\<lparr>properties :=
                 AList.update propertyName val (properties (deref s self))\<rparr>]\<rparr>))"

subsection \<open>GraphDB: the constructor and the index\<close>

definition GraphDB_init :: GraphDB where
  "GraphDB_init =
     \<lparr>objects = [], setObjects = [], nodes = [], indexeStore = Map.empty, allIndexSets = []\<rparr>"

text \<open>
  \<open>lookup3 s l k v\<close> is the set object at \<open>indexeStore[l][k][v]\<close>, and \<open>None\<close> where one
  of the three subscripts is absent.
\<close>

definition lookup3 :: "GraphDB \<Rightarrow> string \<Rightarrow> string option \<Rightarrow> string option \<Rightarrow> sref option" where
  "lookup3 s l k v =
     (case indexeStore s l of
        None \<Rightarrow> None
      | Some byKey \<Rightarrow> (case byKey k of None \<Rightarrow> None | Some byValue \<Rightarrow> byValue v))"

definition index :: "string \<Rightarrow> string option \<Rightarrow> string option \<Rightarrow> ref \<Rightarrow> GraphDB \<Rightarrow> unit outcome" where
  "index lbl keyName keyValue node s =
     (let s1 = (case indexeStore s lbl of
                  None \<Rightarrow>
                    s\<lparr>setObjects := setObjects s @ [[]],
                      indexeStore := (indexeStore s)
                        (lbl \<mapsto> Map.empty(None \<mapsto> Map.empty(None \<mapsto> length (setObjects s))))\<rparr>
                | Some _ \<Rightarrow> s)
      in (case indexeStore s1 lbl of
            None \<Rightarrow> (Inl KeyError, s1)
          | Some byKey \<Rightarrow>
             (let byKey2 = (case byKey keyName of None \<Rightarrow> byKey(keyName \<mapsto> Map.empty) | Some _ \<Rightarrow> byKey)
              in (case byKey2 keyName of
                    None \<Rightarrow> (Inl KeyError, s1)
                  | Some byValue \<Rightarrow>
                     (let s2 = (case byValue keyValue of
                                  None \<Rightarrow>
                                    s1\<lparr>setObjects := setObjects s1 @ [[]],
                                       indexeStore := (indexeStore s1)
                                         (lbl \<mapsto> byKey2(keyName \<mapsto> byValue(keyValue \<mapsto> length (setObjects s1)))),
                                       allIndexSets := allIndexSets s1 @ [length (setObjects s1)]\<rparr>
                                | Some _ \<Rightarrow> s1\<lparr>indexeStore := (indexeStore s1)(lbl \<mapsto> byKey2)\<rparr>)
                      in (case lookup3 s2 lbl keyName keyValue of
                            None \<Rightarrow> (Inl KeyError, s2)
                          | Some a \<Rightarrow>
                             (let s3 = s2\<lparr>setObjects := (setObjects s2)[a := set_add node (the_set s2 a)]\<rparr>
                              in (case lookup3 s3 lbl None None of
                                    None \<Rightarrow> (Inl KeyError, s3)
                                  | Some a0 \<Rightarrow>
                                      (Inr (), s3\<lparr>setObjects := (setObjects s3)
                                                    [a0 := set_add node (the_set s3 a0)]\<rparr>)))))))))"

text \<open>The body of the loop of \<open>unIndex\<close> (lines 287 and 288), for one set object.\<close>

definition unIndex_step :: "ref \<Rightarrow> sref \<Rightarrow> ref list list \<Rightarrow> ref list list" where
  "unIndex_step node indexSet sets =
     (if indexSet < length sets \<and> node \<in> set (sets ! indexSet)
      then sets[indexSet := set_remove node (sets ! indexSet)] else sets)"

definition unIndex :: "ref \<Rightarrow> GraphDB \<Rightarrow> GraphDB" where
  "unIndex node s =
     s\<lparr>setObjects := fold (unIndex_step node) (allIndexSets s) (setObjects s)\<rparr>"

fun addIndex_items :: "string \<Rightarrow> ref \<Rightarrow> (string \<times> string) list \<Rightarrow> GraphDB \<Rightarrow> unit outcome" where
  "addIndex_items lbl node [] s = (Inr (), s)"
| "addIndex_items lbl node ((propertyName, val) # items) s =
     (case index lbl (Some propertyName) (Some val) node s of
        (Inl e, s1) \<Rightarrow> (Inl e, s1)
      | (Inr _, s1) \<Rightarrow> addIndex_items lbl node items s1)"

definition addIndex :: "ref \<Rightarrow> GraphDB \<Rightarrow> unit outcome" where
  "addIndex node s = addIndex_items (label (deref s node)) node (properties (deref s node)) s"

definition reIndex :: "ref \<Rightarrow> GraphDB \<Rightarrow> unit outcome" where
  "reIndex node s = addIndex node (unIndex node s)"

subsection \<open>GraphDB: queries\<close>

definition query :: "string option \<Rightarrow> GraphDB \<Rightarrow> (ref list) outcome" where
  "query queryQualifier s =
     (case queryQualifier of
        None \<Rightarrow> (Inr (nodes s), s)
      | Some qq \<Rightarrow>
          (case parseQueryQualifier qq of
             Inl e \<Rightarrow> (Inl e, s)
           | Inr (lbl, key, val) \<Rightarrow>
               (Inr (case lookup3 s lbl key val of None \<Rightarrow> [] | Some a \<Rightarrow> the_set s a), s)))"

definition queryById :: "string \<Rightarrow> GraphDB \<Rightarrow> ref outcome" where
  "queryById queryQualifier s =
     (case parseQueryQualifier queryQualifier of
        Inl e \<Rightarrow> (Inl e, s)
      | Inr (lbl, key, val) \<Rightarrow>
          if key \<noteq> Some ''id'' then (Inl InvalidQueryFormat, s)
          else (case lookup3 s lbl key val of
                  None \<Rightarrow> (Inl NoNodesFound, s)
                | Some a \<Rightarrow>
                    (case the_set s a of
                       [] \<Rightarrow> (Inl NoNodesFound, s)
                     | n # _ \<Rightarrow> (Inr n, s))))"

definition doesNodeMatchQuery :: "Node \<Rightarrow> string \<Rightarrow> error + bool" where
  "doesNodeMatchQuery n queryClause =
     (case parseQueryClause queryClause of
        Inl e \<Rightarrow> Inl e
      | Inr (key, val) \<Rightarrow>
          (case map_of (properties n) key of
             Some nodeValue \<Rightarrow> Inr (nodeValue = val)
           | None \<Rightarrow> Inr False))"

subsection \<open>Queue\<close>

text \<open>
  The queue is a singly linked list of \<open>ListNode\<close> cells between a \<open>front\<close> and a \<open>back\<close>
  pointer; it is the list of its items, front first, and \<open>queueSize\<close> is its length.
  An item is a node or the level marker \<open>None\<close>. \<open>peek\<close> has no \<open>return\<close> for the empty
  queue, so it answers \<open>None\<close> there as it does for a marker at the front.
\<close>

type_synonym Queue = "ref option list"

definition isEmpty :: "Queue \<Rightarrow> bool" where
  "isEmpty q \<longleftrightarrow> q = []"

definition enqueue :: "ref option \<Rightarrow> Queue \<Rightarrow> Queue" where
  "enqueue item q = q @ [item]"

definition dequeue :: "Queue \<Rightarrow> error + (ref option \<times> Queue)" where
  "dequeue q = (case q of [] \<Rightarrow> Inl QueueIsEmpty | item # rest \<Rightarrow> Inr (item, rest))"

definition peek :: "Queue \<Rightarrow> ref option" where
  "peek q = (case q of [] \<Rightarrow> None | item # _ \<Rightarrow> item)"

subsection \<open>GraphDB: traversal\<close>

type_synonym levels = "(string \<times> ref list) list"

text \<open>\<open>result[str(level)].append(node)\<close>: the subscript raises \<open>KeyError\<close> on an absent key.\<close>

definition append_to_level :: "string \<Rightarrow> ref \<Rightarrow> levels \<Rightarrow> error + levels" where
  "append_to_level k node result =
     (case map_of result k of
        None \<Rightarrow> Inl KeyError
      | Some ns \<Rightarrow> Inr (AList.update k (ns @ [node]) result))"

text \<open>The inner loop over \<open>node.getConnections()\<close> (lines 206 to 209).\<close>

fun enqueueChildren :: "ref list \<Rightarrow> Queue \<times> ref set \<Rightarrow> Queue \<times> ref set" where
  "enqueueChildren [] (q, visited) = (q, visited)"
| "enqueueChildren (childNode # rest) (q, visited) =
     (if childNode \<notin> visited
      then enqueueChildren rest (enqueue (Some childNode) q, insert childNode visited)
      else enqueueChildren rest (q, visited))"

text \<open>The test of line 203 with its short-circuit: the clause is parsed only when it is reached.\<close>

definition includeNode :: "GraphDB \<Rightarrow> string option \<Rightarrow> int \<Rightarrow> ref \<Rightarrow> error + bool" where
  "includeNode s queryClause level node =
     (case queryClause of
        None \<Rightarrow> Inr True
      | Some clause \<Rightarrow> if level = 0 then Inr True else doesNodeMatchQuery (deref s node) clause)"

text \<open>
  What the inner loop enqueues: the connections not yet visited, each once. The references
  that occur in some connection set are finitely many; the traversal can visit no other
  node but the start.
\<close>

fun fresh_children :: "ref list \<Rightarrow> ref set \<Rightarrow> ref list" where
  "fresh_children [] visited = []"
| "fresh_children (c # cs) visited =
     (if c \<notin> visited then c # fresh_children cs (insert c visited) else fresh_children cs visited)"

definition connected_refs :: "GraphDB \<Rightarrow> ref set" where
  "connected_refs s = (\<Union>n \<in> set (objects s). set (connections n))"

lemma enqueueChildren_eq:
  "enqueueChildren cs (q, visited) =
     (q @ map Some (fresh_children cs visited), visited \<union> set (fresh_children cs visited))"
  by (induction cs arbitrary: q visited) (simp_all add: enqueue_def)

lemma set_fresh_children: "set (fresh_children cs visited) = set cs - visited"
  by (induction cs arbitrary: visited) auto

lemma distinct_fresh_children: "distinct (fresh_children cs visited)"
  by (induction cs arbitrary: visited) (auto simp: set_fresh_children)

lemma finite_connected_refs: "finite (connected_refs s)"
  by (simp add: connected_refs_def)

lemma connections_deref_subset: "set (connections (deref s r)) \<subseteq> connected_refs s"
  by (auto simp: deref_def connected_refs_def intro: nth_mem)

lemma bfs_step_decreases:
  assumes "enqueueChildren (connections (deref s node)) (q1, insert node visited) = (q2, visited2)"
  shows "card (connected_refs s - visited2) < card (connected_refs s - visited)
       \<or> (card (connected_refs s - visited2) \<le> card (connected_refs s - visited) \<and> length q2 = length q1)"
proof -
  let ?cs = "connections (deref s node)"
  let ?new = "fresh_children ?cs (insert node visited)"
  from assms have q2: "q2 = q1 @ map Some ?new" and v2: "visited2 = insert node visited \<union> set ?new"
    by (simp_all add: enqueueChildren_eq)
  show ?thesis
  proof (cases "?new = []")
    case True
    then have "visited \<subseteq> visited2" "length q2 = length q1" using q2 v2 by auto
    then show ?thesis
      by (metis Diff_mono card_mono finite_Diff finite_connected_refs order_refl)
  next
    case False
    then obtain c where c: "c \<in> set ?new" by (cases ?new) auto
    then have "c \<in> connected_refs s" "c \<notin> visited" "c \<in> visited2"
      using connections_deref_subset[of s node] v2 by (auto simp: set_fresh_children)
    moreover have "visited \<subseteq> visited2" using v2 by auto
    ultimately have "connected_refs s - visited2 \<subset> connected_refs s - visited" by auto
    then show ?thesis
      by (simp add: psubset_card_mono finite_connected_refs)
  qed
qed

function bfs_loop ::
  "GraphDB \<Rightarrow> string option \<Rightarrow> int \<Rightarrow> ref set \<times> int \<times> levels \<times> Queue \<Rightarrow> error + levels" where
  "bfs_loop s queryClause maxDepth (visited, level, result, q) =
     (if \<not> isEmpty q \<and> level \<le> maxDepth then
        (case dequeue q of
           Inl e \<Rightarrow> Inl e
         | Inr (None, q1) \<Rightarrow>
             (if peek q1 = None then Inr result
              else bfs_loop s queryClause maxDepth
                     (visited, level + 1, AList.update (str (level + 1)) [] result, enqueue None q1))
         | Inr (Some node, q1) \<Rightarrow>
             (case includeNode s queryClause level node of
                Inl e \<Rightarrow> Inl e
              | Inr matches \<Rightarrow>
                  (case (if matches then append_to_level (str level) node result else Inr result) of
                     Inl e \<Rightarrow> Inl e
                   | Inr result1 \<Rightarrow>
                       (case enqueueChildren (connections (deref s node)) (q1, insert node visited) of
                          (q2, visited2) \<Rightarrow>
                            bfs_loop s queryClause maxDepth (visited2, level, result1, q2)))))
      else Inr result)"
  by pat_completeness auto

termination
  apply (relation "inv_image (less_than <*lex*> less_than <*lex*> less_than)
         (\<lambda>(s, qc, maxDepth, visited, level, result, q).
            (nat (maxDepth + 1 - level), card (connected_refs s - visited), length q))")
  subgoal by (intro wf_inv_image wf_lex_prod wf_less_than)
  subgoal by simp
  subgoal for s queryClause maxDepth visited level result q x2 x1 q1 node matches result1 q2 visited2
    using bfs_step_decreases[of s node q1 visited q2 visited2]
    by (auto simp: dequeue_def split: list.splits)
  done

declare bfs_loop.simps [simp del]

definition bfs :: "ref \<Rightarrow> string option \<Rightarrow> int \<Rightarrow> GraphDB \<Rightarrow> levels outcome" where
  "bfs startNode queryClause maxDepth s =
     (bfs_loop s queryClause maxDepth
        ({}, 0, [(str 0, [])], enqueue None (enqueue (Some startNode) [])), s)"

definition graphQuery :: "string \<Rightarrow> string option \<Rightarrow> int \<Rightarrow> GraphDB \<Rightarrow> levels outcome" where
  "graphQuery nodeQualifier queryClause maxDepth s =
     (case queryById nodeQualifier s of
        (Inl e, s1) \<Rightarrow> (Inl e, s1)
      | (Inr startNode, s1) \<Rightarrow> bfs startNode queryClause maxDepth s1)"

subsection \<open>GraphDB: mutation\<close>

text \<open>
  \<open>addNode\<close> constructs the \<open>Node\<close> before it checks anything; the object becomes one of
  the store's objects when line 222 puts it into \<open>nodes\<close>, and is garbage when an
  exception leaves \<open>addNode\<close> before that. Its identity is the next free reference.

  \<open>throwIfNodeAlreadyExists\<close>: the membership test of line 259 compares identities. The
  \<open>try\<close> of lines 262 to 268 swallows every exception, that of \<open>format\<close> as well as
  that of \<open>queryById\<close>; \<open>queryById\<close> never returns \<open>None\<close>, so a returned node sets
  \<open>exists\<close>. The message of line 271 reads \<open>node.id\<close>, an attribute no \<open>Node\<close> has, so what
  leaves line 271 is an \<open>AttributeError\<close> in place of the exception written there; it is
  the constructor \<open>NodeAlreadyExists\<close> all the same.
\<close>

definition verifyEntity :: "Node \<Rightarrow> GraphDB \<Rightarrow> unit outcome" where
  "verifyEntity n s = (Inr (), s)"

definition throwIfNodeAlreadyExists :: "ref \<Rightarrow> Node \<Rightarrow> GraphDB \<Rightarrow> unit outcome" where
  "throwIfNodeAlreadyExists r n s =
     (let exists =
        (if r \<in> set (nodes s) then True
         else (case getId n of
                 Inl e \<Rightarrow> False
               | Inr ident \<Rightarrow>
                   (case py_format (label n) ident of
                      None \<Rightarrow> False
                    | Some qualifier \<Rightarrow>
                        (case queryById qualifier s of
                           (Inl e, _) \<Rightarrow> False
                         | (Inr existingNode, _) \<Rightarrow> True))))
      in if exists then (Inl NodeAlreadyExists, s) else (Inr (), s))"

definition addNode :: "string \<Rightarrow> string \<Rightarrow> GraphDB \<Rightarrow> unit outcome" where
  "addNode lbl ident s =
     (let n = Node_init ident lbl; node = length (objects s)
      in (case verifyEntity n s of
            (Inl e, s1) \<Rightarrow> (Inl e, s1)
          | (Inr _, s1) \<Rightarrow>
              (case throwIfNodeAlreadyExists node n s1 of
                 (Inl e, s2) \<Rightarrow> (Inl e, s2)
               | (Inr _, s2) \<Rightarrow>
                   reIndex node (s2\<lparr>objects := objects s2 @ [n], nodes := set_add node (nodes s2)\<rparr>))))"

definition connect :: "string \<Rightarrow> string \<Rightarrow> GraphDB \<Rightarrow> unit outcome" where
  "connect nodeQualifier1 nodeQualifier2 s =
     (case queryById nodeQualifier1 s of
        (Inl e, s1) \<Rightarrow> (Inl e, s1)
      | (Inr node1, s1) \<Rightarrow>
          (case queryById nodeQualifier2 s1 of
             (Inl e, s2) \<Rightarrow> (Inl e, s2)
           | (Inr node2, s2) \<Rightarrow> addConnection node1 node2 s2))"

definition addOrUpdateNodeProperty :: "string \<Rightarrow> string \<Rightarrow> string \<Rightarrow> GraphDB \<Rightarrow> unit outcome" where
  "addOrUpdateNodeProperty nodeQualifier propertyName propertyValue s =
     (case queryById nodeQualifier s of
        (Inl e, s1) \<Rightarrow> (Inl e, s1)
      | (Inr node, s1) \<Rightarrow>
          (case addOrUpdateProperty node propertyName propertyValue s1 of
             (Inl e, s2) \<Rightarrow> (Inl e, s2)
           | (Inr _, s2) \<Rightarrow> reIndex node s2))"

section \<open>Notions the properties are stated with\<close>

subsection \<open>Traversal\<close>

text \<open>
  The nodes of a result, level after level, and the nodes waiting in a queue. The
  invariant of the loop of \<open>bfs\<close>: no node stands twice in the result and the queue
  together, and every node of the result, and every node of the queue behind its front,
  is marked visited (the start node is marked when it is dequeued).
\<close>

definition res_nodes :: "levels \<Rightarrow> ref list" where
  "res_nodes result = concat (map snd result)"

fun queue_nodes :: "Queue \<Rightarrow> ref list" where
  "queue_nodes [] = []"
| "queue_nodes (None # q) = queue_nodes q"
| "queue_nodes (Some n # q) = n # queue_nodes q"

definition bfs_inv :: "ref set \<Rightarrow> levels \<Rightarrow> Queue \<Rightarrow> bool" where
  "bfs_inv visited result q \<longleftrightarrow>
     distinct (res_nodes result @ queue_nodes q) \<and>
     set (res_nodes result) \<subseteq> visited \<and>
     set (tl (queue_nodes q)) \<subseteq> visited"

text \<open>
  A result restricted by a predicate on nodes: the list under the key of level 0 is kept,
  every other list keeps the nodes that satisfy the predicate.
\<close>

definition filter_levels :: "(ref \<Rightarrow> bool) \<Rightarrow> levels \<Rightarrow> levels" where
  "filter_levels p res = map (\<lambda>(k, ns). (k, if k = str 0 then ns else filter p ns)) res"


subsection \<open>The index store\<close>

text \<open>
  The shape of the index store that \<open>index\<close> keeps: every label present has its set of all
  nodes at \<open>[None][None]\<close>; every set object referred to exists; no set object stands
  under two keys; the sets of the property values are all in \<open>allIndexSets\<close>, the label
  sets are not (line 93 creates them without appending them); and \<open>allIndexSets\<close> refers
  to set objects that exist.

  \<open>indexed s l k v\<close> is the content of \<open>indexeStore[l][k][v]\<close> as a set, empty where the key
  is absent: what \<open>query\<close> answers.
\<close>

definition index_sets_ok :: "GraphDB \<Rightarrow> bool" where
  "index_sets_ok s \<longleftrightarrow>
     (\<forall>l. indexeStore s l \<noteq> None \<longrightarrow> lookup3 s l None None \<noteq> None) \<and>
     (\<forall>l k v a. lookup3 s l k v = Some a \<longrightarrow> a < length (setObjects s)) \<and>
     (\<forall>l k v l' k' v' a. lookup3 s l k v = Some a \<longrightarrow> lookup3 s l' k' v' = Some a \<longrightarrow>
        l = l' \<and> k = k' \<and> v = v') \<and>
     (\<forall>l k v a. lookup3 s l (Some k) (Some v) = Some a \<longrightarrow> a \<in> set (allIndexSets s)) \<and>
     (\<forall>l a. lookup3 s l None None = Some a \<longrightarrow> a \<notin> set (allIndexSets s)) \<and>
     (\<forall>a \<in> set (allIndexSets s). a < length (setObjects s))"

definition indexed :: "GraphDB \<Rightarrow> string \<Rightarrow> string option \<Rightarrow> string option \<Rightarrow> ref set" where
  "indexed s l k v = (case lookup3 s l k v of None \<Rightarrow> {} | Some a \<Rightarrow> set (the_set s a))"

text \<open>
  \<open>consistent\<close>: the index agrees with the nodes. The set under a label, a property name
  and a value holds exactly the nodes of the store with that label whose property has
  that value now, and the set of a label holds exactly the nodes of that label.
  \<open>reindexing s r P Q\<close> is the same for every node but \<open>r\<close>, which is indexed under the
  pairs of \<open>P\<close> only, and is in the set of its label when \<open>Q\<close> holds: the state between
  the steps of \<open>reIndex\<close>. \<open>nodes_ok\<close>: the nodes of the store are objects, and their
  property dictionaries have each key once.
\<close>

definition consistent :: "GraphDB \<Rightarrow> bool" where
  "consistent s \<longleftrightarrow>
     (\<forall>l k v. indexed s l (Some k) (Some v) =
        {r \<in> set (nodes s). label (deref s r) = l \<and> getProperty (deref s r) k = Some v}) \<and>
     (\<forall>l. indexed s l None None = {r \<in> set (nodes s). label (deref s r) = l})"

definition reindexing :: "GraphDB \<Rightarrow> ref \<Rightarrow> (string \<times> string) set \<Rightarrow> bool \<Rightarrow> bool" where
  "reindexing s r P Q \<longleftrightarrow>
     (\<forall>l k v. indexed s l (Some k) (Some v) =
        {r' \<in> set (nodes s). r' \<noteq> r \<and> label (deref s r') = l \<and> getProperty (deref s r') k = Some v}
        \<union> (if l = label (deref s r) \<and> (k, v) \<in> P then {r} else {})) \<and>
     (\<forall>l. indexed s l None None =
        {r' \<in> set (nodes s). r' \<noteq> r \<and> label (deref s r') = l}
        \<union> (if l = label (deref s r) \<and> Q then {r} else {}))"

definition nodes_ok :: "GraphDB \<Rightarrow> bool" where
  "nodes_ok s \<longleftrightarrow>
     (\<forall>r \<in> set (nodes s). r < length (objects s) \<and> distinct (map fst (properties (deref s r))))"

definition store_inv :: "GraphDB \<Rightarrow> bool" where
  "store_inv s \<longleftrightarrow> index_sets_ok s \<and> nodes_ok s \<and> consistent s"

text \<open>
  \<open>store_inv\<close> is the invariant of the store. The states of a store: the empty store, and
  the state any of the three mutating operations leaves, whether it returns or raises.
\<close>

inductive reachable :: "GraphDB \<Rightarrow> bool" where
  init: "reachable GraphDB_init"
| addNode: "reachable s \<Longrightarrow> reachable (snd (addNode lbl ident s))"
| addOrUpdateNodeProperty:
    "reachable s \<Longrightarrow> reachable (snd (addOrUpdateNodeProperty nodeQualifier propertyName val s))"
| connect: "reachable s \<Longrightarrow> reachable (snd (connect nodeQualifier1 nodeQualifier2 s))"

subsection \<open>Example stores\<close>

text \<open>
  Stores built by the public operations from the empty store, each operation applied to
  the state the one before left (the exceptions, if any, are dropped as the application's
  menu loop drops them).
\<close>

definition steps :: "(GraphDB \<Rightarrow> unit outcome) list \<Rightarrow> GraphDB \<Rightarrow> GraphDB" where
  "steps ops s = fold (\<lambda>f s1. snd (f s1)) ops s"

definition chain_store :: GraphDB where
  "chain_store =
     steps [addNode ''Person'' ''A'', addNode ''Person'' ''B'', addNode ''Person'' ''C'',
            connect ''Person:A'' ''Person:B'', connect ''Person:B'' ''Person:C''] GraphDB_init"

definition cycle_store :: GraphDB where
  "cycle_store =
     steps [addNode ''Person'' ''A'', addNode ''Person'' ''B'', addNode ''Person'' ''C'',
            connect ''Person:A'' ''Person:B'', connect ''Person:B'' ''Person:C'',
            connect ''Person:C'' ''Person:A''] GraphDB_init"

definition family_store :: GraphDB where
  "family_store =
     steps [addNode ''Person'' ''eljo'', addNode ''Person'' ''merin'', addNode ''Person'' ''norah'',
            addOrUpdateNodeProperty ''Person:eljo'' ''gender'' ''Male'',
            addOrUpdateNodeProperty ''Person:merin'' ''gender'' ''Female'',
            addOrUpdateNodeProperty ''Person:norah'' ''gender'' ''Male'',
            connect ''Person:eljo'' ''Person:merin'',
            connect ''Person:eljo'' ''Person:norah''] GraphDB_init"

definition duplicate_store :: GraphDB where
  "duplicate_store = steps [addNode ''Person'' ''eljo'', addNode ''Person'' ''eljo''] GraphDB_init"


section \<open>The parser\<close>

lemma py_split_not_Nil: "py_split sep s \<noteq> []"
  by (induction s) (auto split: list.splits)

lemma length_py_split: "length (py_split sep s) = Suc (count_list s sep)"
  by (induction s) (auto simp: py_split_not_Nil split: list.splits)

lemma py_split_no_sep: "count_list s sep = 0 \<Longrightarrow> py_split sep s = [s]"
  by (induction s) (auto split: if_splits)

lemma py_split_one_sep:
  "count_list s sep = 1 \<Longrightarrow>
   py_split sep s = [takeWhile (\<lambda>c. c \<noteq> sep) s, tl (dropWhile (\<lambda>c. c \<noteq> sep) s)]"
  by (induction s) (auto simp: py_split_no_sep split: if_splits)

lemma parseQueryClause_eq:
  "parseQueryClause c =
     (if count_list c CHR ''='' = 0 then Inr (''id'', c)
      else if count_list c CHR ''='' = 1
      then Inr (takeWhile (\<lambda>x. x \<noteq> CHR ''='') c, tl (dropWhile (\<lambda>x. x \<noteq> CHR ''='') c))
      else Inl InvalidQuery)"
  by (simp add: parseQueryClause_def length_py_split py_split_no_sep py_split_one_sep)

text \<open>
  Claim C9. For every qualifier \<open>Q\<close>, \<open>parseQueryQualifier\<close> fails (with the "Invalid Query"
  exception) if and only if \<open>Q\<close> has more than one \<open>:\<close>, or has exactly one and the clause
  after it has more than one \<open>=\<close>. Otherwise it returns a triple: a bare label gives the
  label with key and value \<open>None\<close>; a clause without \<open>=\<close> gives the key \<open>id\<close> and the
  clause as the value; a clause with one \<open>=\<close> gives the text before it as the key and
  the text after it as the value.
\<close>

theorem parseQueryQualifier_spec:
  "parseQueryQualifier Q =
     (let colons = count_list Q CHR '':'';
          lbl = takeWhile (\<lambda>c. c \<noteq> CHR '':'') Q;
          clause = tl (dropWhile (\<lambda>c. c \<noteq> CHR '':'') Q);
          equals = count_list clause CHR ''=''
      in if colons = 0 then Inr (Q, None, None)
         else if 1 < colons then Inl InvalidQuery
         else if equals = 0 then Inr (lbl, Some ''id'', Some clause)
         else if 1 < equals then Inl InvalidQuery
         else Inr (lbl, Some (takeWhile (\<lambda>c. c \<noteq> CHR ''='') clause),
                        Some (tl (dropWhile (\<lambda>c. c \<noteq> CHR ''='') clause))))
   \<and> (isl (parseQueryQualifier Q) \<longleftrightarrow>
        1 < count_list Q CHR '':'' \<or>
        (count_list Q CHR '':'' = 1 \<and>
         1 < count_list (tl (dropWhile (\<lambda>c. c \<noteq> CHR '':'') Q)) CHR ''=''))"
proof -
  let ?n = "count_list Q CHR '':''"
  consider "?n = 0" | "?n = 1" | "1 < ?n" by linarith
  then show ?thesis
  proof cases
    case 1
    then show ?thesis
      by (simp add: parseQueryQualifier_def length_py_split py_split_no_sep)
  next
    case 2
    then show ?thesis
      by (simp add: parseQueryQualifier_def length_py_split py_split_one_sep
          parseQueryClause_eq Let_def)
  next
    case 3
    then show ?thesis
      by (simp add: parseQueryQualifier_def length_py_split)
  qed
qed

section \<open>Queries and traversal\<close>

lemma snd_query [simp]: "snd (query qq s) = s"
  by (simp add: query_def split: option.splits sum.splits)

lemma snd_queryById [simp]: "snd (queryById q s) = s"
  by (simp add: queryById_def split: option.splits sum.splits list.splits)

lemma snd_bfs [simp]: "snd (bfs start qc d s) = s"
  by (simp add: bfs_def)

lemma snd_graphQuery [simp]: "snd (graphQuery q qc d s) = s"
proof (cases "queryById q s")
  case (Pair r s1)
  moreover from this have "s1 = s" using snd_queryById[of q s] by simp
  ultimately show ?thesis by (cases r) (simp_all add: graphQuery_def)
qed

lemma queue_nodes_append [simp]: "queue_nodes (q @ q') = queue_nodes q @ queue_nodes q'"
  by (induction q rule: queue_nodes.induct) simp_all

lemma queue_nodes_map_Some [simp]: "queue_nodes (map Some ns) = ns"
  by (induction ns) simp_all

lemma set_res_nodes_update_Nil:
  "set (res_nodes (AList.update k [] result)) \<subseteq> set (res_nodes result)"
  by (induction result) (auto simp: res_nodes_def)

lemma distinct_res_nodes_update_Nil:
  "distinct (res_nodes result) \<Longrightarrow> distinct (res_nodes (AList.update k [] result))"
proof (induction result)
  case Nil
  then show ?case by (simp add: res_nodes_def)
next
  case (Cons p result)
  then show ?case
    using set_res_nodes_update_Nil[of k result]
    by (cases p) (auto simp: res_nodes_def)
qed

lemma set_res_nodes_append:
  "map_of result k = Some ns \<Longrightarrow>
   set (res_nodes (AList.update k (ns @ [n]) result)) = insert n (set (res_nodes result))"
  by (induction result) (auto simp: res_nodes_def split: if_splits)

lemma distinct_res_nodes_append:
  "map_of result k = Some ns \<Longrightarrow> distinct (res_nodes result) \<Longrightarrow> n \<notin> set (res_nodes result) \<Longrightarrow>
   distinct (res_nodes (AList.update k (ns @ [n]) result))"
proof (induction result)
  case Nil
  then show ?case by simp
next
  case (Cons p result)
  obtain k' ns' where p: "p = (k', ns')" by (cases p)
  show ?case
  proof (cases "k' = k")
    case True
    with Cons.prems p show ?thesis by (auto simp: res_nodes_def)
  next
    case False
    with Cons.prems p have m: "map_of result k = Some ns"
      and d: "distinct (res_nodes result)" and n: "n \<notin> set (res_nodes result)"
      by (auto simp: res_nodes_def)
    from Cons.IH[OF m d n] set_res_nodes_append[OF m, of n] Cons.prems p False
    show ?thesis by (auto simp: res_nodes_def)
  qed
qed

lemma bfs_inv_marker:
  assumes "bfs_inv visited result (None # q1)"
  shows "bfs_inv visited (AList.update k [] result) (enqueue None q1)"
  using assms set_res_nodes_update_Nil[of k result] distinct_res_nodes_update_Nil[of result k]
  by (auto simp: bfs_inv_def enqueue_def)

lemma bfs_inv_node:
  assumes inv: "bfs_inv visited result (Some node # q1)"
    and res: "(if matches then append_to_level k node result else Inr result) = Inr result1"
    and ch: "enqueueChildren cs (q1, insert node visited) = (q2, visited2)"
  shows "bfs_inv visited2 result1 q2"
proof -
  let ?new = "fresh_children cs (insert node visited)"
  from ch have q2: "q2 = q1 @ map Some ?new" and v2: "visited2 = insert node visited \<union> set ?new"
    by (simp_all add: enqueueChildren_eq)
  from inv have d: "distinct (res_nodes result)" "node \<notin> set (res_nodes result)"
    "distinct (queue_nodes q1)" "node \<notin> set (queue_nodes q1)"
    "set (res_nodes result) \<inter> set (queue_nodes q1) = {}"
    "set (res_nodes result) \<subseteq> visited" "set (queue_nodes q1) \<subseteq> visited"
    by (auto simp: bfs_inv_def)
  have r1: "distinct (res_nodes result1) \<and> set (res_nodes result1) \<subseteq> insert node (set (res_nodes result))"
  proof (cases matches)
    case True
    with res obtain ns where "map_of result k = Some ns"
      "result1 = AList.update k (ns @ [node]) result"
      by (auto simp: append_to_level_def split: option.splits)
    then show ?thesis
      using d distinct_res_nodes_append[of result k ns node] set_res_nodes_append[of result k ns node]
      by auto
  next
    case False
    with res d show ?thesis by auto
  qed
  have new: "distinct ?new" "set ?new \<inter> insert node visited = {}"
    by (auto simp: distinct_fresh_children set_fresh_children)
  have t: "set (tl (queue_nodes q1 @ ?new)) \<subseteq> set (queue_nodes q1) \<union> set ?new"
    using list.set_sel(2)[of "queue_nodes q1 @ ?new"] by (cases "queue_nodes q1 @ ?new = []") auto
  show ?thesis
    unfolding bfs_inv_def q2 v2 using r1 d new t
    by (simp add: disjoint_iff subset_iff) blast
qed

lemma bfs_loop_distinct:
  "bfs_loop s qc d (visited, level, result, q) = Inr res \<Longrightarrow> bfs_inv visited result q \<Longrightarrow>
   distinct (res_nodes res)"
proof (induction s qc d "(visited, level, result, q)" arbitrary: visited level result q
    rule: bfs_loop.induct)
  case (1 s qc d visited level result q)
  show ?case
  proof (cases "\<not> isEmpty q \<and> level \<le> d")
    case False
    with "1.prems" show ?thesis
      by (auto simp: bfs_loop.simps[of s qc d visited level result q] bfs_inv_def)
  next
    case go: True
    then obtain item q1 where q: "q = item # q1" by (cases q) (auto simp: isEmpty_def)
    then have dq: "dequeue q = Inr (item, q1)" by (simp add: dequeue_def)
    show ?thesis
    proof (cases item)
      case None
      show ?thesis
      proof (cases "peek q1 = None")
        case True
        with "1.prems" go dq None show ?thesis
          by (auto simp: bfs_loop.simps[of s qc d visited level result q] bfs_inv_def)
      next
        case False
        with "1.prems" go dq None
        have run: "bfs_loop s qc d (visited, level + 1, AList.update (str (level + 1)) [] result, enqueue None q1) = Inr res"
          by (simp add: bfs_loop.simps[of s qc d visited level result q])
        from "1.prems"(2) q None have "bfs_inv visited (AList.update (str (level + 1)) [] result) (enqueue None q1)"
          by (simp add: bfs_inv_marker)
        from "1.hyps"(1)[OF go dq refl None False run this] show ?thesis .
      qed
    next
      case (Some node)
      from "1.prems"(1) go dq Some obtain matches result1 q2 visited2 where
        inc: "includeNode s qc level node = Inr matches"
        and res1: "(if matches then append_to_level (str level) node result else Inr result) = Inr result1"
        and ch: "enqueueChildren (connections (deref s node)) (q1, insert node visited) = (q2, visited2)"
        and run: "bfs_loop s qc d (visited2, level, result1, q2) = Inr res"
        by (auto simp: bfs_loop.simps[of s qc d visited level result q] split: sum.splits prod.splits)
      from "1.prems"(2) q Some have "bfs_inv visited2 result1 q2"
        using bfs_inv_node[OF _ res1 ch] by simp
      from "1.hyps"(2)[OF go dq refl Some inc res1 ch[symmetric] run this] show ?thesis .
    qed
  qed
qed

lemma str_nat_not_Nil: "str_nat n \<noteq> []"
  by (subst str_nat.simps) simp

lemma str_0: "str 0 = ''0''"
  by (simp add: str_def str_nat.simps digit_char_def)

lemma digit_char_eq_0: "n < 10 \<Longrightarrow> digit_char n = CHR ''0'' \<longleftrightarrow> n = 0"
proof (cases n)
  case 0
  then show ?thesis by (simp add: digit_char_def)
next
  case (Suc m)
  assume "n < 10"
  with Suc have "m < length ''123456789''" by simp
  then have "''123456789'' ! m \<in> set ''123456789''" by (rule nth_mem)
  moreover have "CHR ''0'' \<notin> set ''123456789''" by simp
  ultimately have "''123456789'' ! m \<noteq> CHR ''0''" by metis
  with Suc \<open>n < 10\<close> show ?thesis by (simp add: digit_char_def)
qed

lemma str_nat_eq_0: "str_nat n = ''0'' \<longleftrightarrow> n = 0"
proof (cases "n < 10")
  case True
  then show ?thesis by (subst str_nat.simps) (simp add: digit_char_eq_0)
next
  case False
  then have "str_nat n = str_nat (n div 10) @ [digit_char (n mod 10)]"
    by (subst str_nat.simps) simp
  moreover have "str_nat (n div 10) \<noteq> []" by (rule str_nat_not_Nil)
  ultimately have "length (str_nat n) \<noteq> 1" by (cases "str_nat (n div 10)") auto
  with False show ?thesis by auto
qed

lemma str_eq_str_0: "str i = str 0 \<longleftrightarrow> i = 0"
proof (cases "i < 0")
  case True
  then show ?thesis by (simp add: str_0) (simp add: str_def)
next
  case False
  then show ?thesis by (simp add: str_0) (simp add: str_def str_nat_eq_0)
qed

lemma parseQueryClause_error: "parseQueryClause c = Inl e \<Longrightarrow> e = InvalidQuery"
  by (auto simp: parseQueryClause_def Let_def split: if_splits)

lemma includeNode_error:
  "includeNode s qc level node = Inl e \<Longrightarrow>
   e = InvalidQuery \<and> (\<exists>c. qc = Some c \<and> parseQueryClause c = Inl InvalidQuery)"
  by (auto simp: includeNode_def doesNodeMatchQuery_def
      split: option.splits if_splits sum.splits dest: parseQueryClause_error)

lemma map_of_update_same: "map_of (AList.update k v al) k = Some v"
  by (simp add: AList.update_conv')

lemma append_to_level_present:
  "(if matches then append_to_level k node result else Inr result) = Inr result1 \<Longrightarrow>
   map_of result k \<noteq> None \<Longrightarrow> map_of result1 k \<noteq> None"
  by (auto simp: append_to_level_def map_of_update_same split: if_splits option.splits)

lemma bfs_loop_error:
  "bfs_loop s qc d (visited, level, result, q) = Inl e \<Longrightarrow> map_of result (str level) \<noteq> None \<Longrightarrow>
   e = InvalidQuery \<and> (\<exists>c. qc = Some c \<and> parseQueryClause c = Inl InvalidQuery)"
proof (induction s qc d "(visited, level, result, q)" arbitrary: visited level result q
    rule: bfs_loop.induct)
  case (1 s qc d visited level result q)
  show ?case
  proof (cases "\<not> isEmpty q \<and> level \<le> d")
    case False
    with "1.prems" show ?thesis
      by (auto simp: bfs_loop.simps[of s qc d visited level result q])
  next
    case go: True
    then obtain item q1 where q: "q = item # q1" by (cases q) (auto simp: isEmpty_def)
    then have dq: "dequeue q = Inr (item, q1)" by (simp add: dequeue_def)
    show ?thesis
    proof (cases item)
      case None
      show ?thesis
      proof (cases "peek q1 = None")
        case True
        with "1.prems" go dq None show ?thesis
          by (auto simp: bfs_loop.simps[of s qc d visited level result q])
      next
        case False
        with "1.prems" go dq None
        have run: "bfs_loop s qc d (visited, level + 1, AList.update (str (level + 1)) [] result, enqueue None q1) = Inl e"
          by (simp add: bfs_loop.simps[of s qc d visited level result q])
        have "map_of (AList.update (str (level + 1)) [] result) (str (level + 1)) \<noteq> None"
          by (simp add: map_of_update_same)
        from "1.hyps"(1)[OF go dq refl None False run this] show ?thesis .
      qed
    next
      case (Some node)
      show ?thesis
      proof (cases "includeNode s qc level node")
        case (Inl e')
        with "1.prems"(1) go dq Some have "e' = e"
          by (simp add: bfs_loop.simps[of s qc d visited level result q])
        with Inl show ?thesis by (auto dest: includeNode_error)
      next
        case (Inr matches)
        from "1.prems"(2) obtain result1 where
          res1: "(if matches then append_to_level (str level) node result else Inr result) = Inr result1"
          by (cases matches) (auto simp: append_to_level_def)
        obtain q2 visited2 where
          ch: "enqueueChildren (connections (deref s node)) (q1, insert node visited) = (q2, visited2)"
          by (cases "enqueueChildren (connections (deref s node)) (q1, insert node visited)")
        from "1.prems"(1) go dq Some Inr res1 ch
        have run: "bfs_loop s qc d (visited2, level, result1, q2) = Inl e"
          by (simp add: bfs_loop.simps[of s qc d visited level result q])
        from append_to_level_present[OF res1 "1.prems"(2)]
        have "map_of result1 (str level) \<noteq> None" .
        from "1.hyps"(2)[OF go dq refl Some Inr res1 ch[symmetric] run this] show ?thesis .
      qed
    qed
  qed
qed

lemma bfs_loop_keeps_level0:
  "bfs_loop s qc d (visited, level, result, q) = Inr res \<Longrightarrow> 1 \<le> level \<Longrightarrow>
   map_of res (str 0) = map_of result (str 0)"
proof (induction s qc d "(visited, level, result, q)" arbitrary: visited level result q
    rule: bfs_loop.induct)
  case (1 s qc d visited level result q)
  show ?case
  proof (cases "\<not> isEmpty q \<and> level \<le> d")
    case False
    with "1.prems" show ?thesis
      by (auto simp: bfs_loop.simps[of s qc d visited level result q])
  next
    case go: True
    then obtain item q1 where q: "q = item # q1" by (cases q) (auto simp: isEmpty_def)
    then have dq: "dequeue q = Inr (item, q1)" by (simp add: dequeue_def)
    have ne: "str level \<noteq> str 0" "str (level + 1) \<noteq> str 0"
      using "1.prems"(2) by (simp_all add: str_eq_str_0)
    show ?thesis
    proof (cases item)
      case None
      show ?thesis
      proof (cases "peek q1 = None")
        case True
        with "1.prems" go dq None show ?thesis
          by (auto simp: bfs_loop.simps[of s qc d visited level result q])
      next
        case False
        with "1.prems" go dq None
        have run: "bfs_loop s qc d (visited, level + 1, AList.update (str (level + 1)) [] result, enqueue None q1) = Inr res"
          by (simp add: bfs_loop.simps[of s qc d visited level result q])
        from "1.hyps"(1)[OF go dq refl None False run] "1.prems"(2) ne show ?thesis
          by (simp add: AList.update_conv')
      qed
    next
      case (Some node)
      from "1.prems"(1) go dq Some obtain matches result1 q2 visited2 where
        inc: "includeNode s qc level node = Inr matches"
        and res1: "(if matches then append_to_level (str level) node result else Inr result) = Inr result1"
        and ch: "enqueueChildren (connections (deref s node)) (q1, insert node visited) = (q2, visited2)"
        and run: "bfs_loop s qc d (visited2, level, result1, q2) = Inr res"
        by (auto simp: bfs_loop.simps[of s qc d visited level result q] split: sum.splits prod.splits)
      from res1 ne have "map_of result1 (str 0) = map_of result (str 0)"
        by (auto simp: append_to_level_def AList.update_conv' split: if_splits option.splits)
      with "1.hyps"(2)[OF go dq refl Some inc res1 ch[symmetric] run "1.prems"(2)] show ?thesis
        by simp
    qed
  qed
qed

lemma bfs_level0:
  assumes "0 \<le> d" and "bfs start qc d s = (Inr res, s')"
  shows "map_of res (str 0) = Some [start]"
proof -
  let ?new = "fresh_children (connections (deref s start)) {start}"
  have inc: "includeNode s qc 0 start = Inr True"
    by (simp add: includeNode_def split: option.splits)
  from assms have run0: "bfs_loop s qc d ({}, 0, [(str 0, [])], [Some start, None]) = Inr res"
    by (auto simp: bfs_def enqueue_def)
  then have run1: "bfs_loop s qc d (insert start (set ?new), 0, [(str 0, [start])], None # map Some ?new) = Inr res"
    using assms(1)
    by (subst (asm) bfs_loop.simps)
      (simp add: isEmpty_def dequeue_def inc append_to_level_def enqueueChildren_eq)
  show ?thesis
  proof (cases "?new = []")
    case True
    with run1 assms(1) show ?thesis
      by (subst (asm) bfs_loop.simps) (auto simp: isEmpty_def dequeue_def peek_def)
  next
    case False
    then have "peek (map Some ?new) \<noteq> None" by (cases ?new) (simp_all add: peek_def)
    with run1 assms(1)
    have "bfs_loop s qc d (insert start (set ?new), 1, AList.update (str 1) [] [(str 0, [start])],
            enqueue None (map Some ?new)) = Inr res"
      by (subst (asm) bfs_loop.simps) (simp add: isEmpty_def dequeue_def)
    from bfs_loop_keeps_level0[OF this] show ?thesis
      using str_eq_str_0[of 1] by (simp add: AList.update_conv')
  qed
qed

lemma map_of_filter_levels:
  "map_of (filter_levels p res) k =
     map_option (\<lambda>ns. if k = str 0 then ns else filter p ns) (map_of res k)"
  by (induction res) (auto simp: filter_levels_def)

lemma filter_levels_update:
  "filter_levels p (AList.update k v res) =
     AList.update k (if k = str 0 then v else filter p v) (filter_levels p res)"
  by (induction res) (auto simp: filter_levels_def)

lemma doesNodeMatchQuery_parsed:
  "parseQueryClause c = Inr (key, val) \<Longrightarrow>
   doesNodeMatchQuery n c = Inr (getProperty n key = Some val)"
  by (auto simp: doesNodeMatchQuery_def getProperty_def split: option.splits)

lemma bfs_loop_filter:
  assumes c: "parseQueryClause c = Inr (key, val)"
  shows "p = (\<lambda>n. getProperty (deref s n) key = Some val) \<Longrightarrow>
     map_of resU (str level) \<noteq> None \<Longrightarrow>
     bfs_loop s (Some c) d (visited, level, filter_levels p resU, q) =
     map_sum id (filter_levels p) (bfs_loop s None d (visited, level, resU, q))"
proof (induction s qc\<equiv>"None :: string option" d "(visited, level, resU, q)"
    arbitrary: visited level resU q rule: bfs_loop.induct)
  case (1 s d visited level resU q)
  note p = "1.prems"(1)
  note simpsU = bfs_loop.simps[of s None d visited level resU q]
  note simpsF = bfs_loop.simps[of s "Some c" d visited level "filter_levels p resU" q]
  show ?case
  proof (cases "\<not> isEmpty q \<and> level \<le> d")
    case False
    then show ?thesis by (auto simp: simpsU simpsF)
  next
    case go: True
    then obtain item q1 where q: "q = item # q1" by (cases q) (auto simp: isEmpty_def)
    then have dq: "dequeue q = Inr (item, q1)" by (simp add: dequeue_def)
    show ?thesis
    proof (cases item)
      case None
      show ?thesis
      proof (cases "peek q1 = None")
        case True
        with go dq None show ?thesis by (simp add: simpsU simpsF)
      next
        case False
        have "map_of (AList.update (str (level + 1)) [] resU) (str (level + 1)) \<noteq> None"
          by (simp add: map_of_update_same)
        from "1.hyps"(1)[OF go dq refl None False p this]
        have IH: "bfs_loop s (Some c) d (visited, level + 1,
              filter_levels p (AList.update (str (level + 1)) [] resU), enqueue None q1) =
            map_sum id (filter_levels p) (bfs_loop s None d
              (visited, level + 1, AList.update (str (level + 1)) [] resU, enqueue None q1))" .
        have fl: "filter_levels p (AList.update (str (level + 1)) [] resU) =
            AList.update (str (level + 1)) [] (filter_levels p resU)"
          by (simp add: filter_levels_update)
        have runU: "bfs_loop s None d (visited, level, resU, q) = bfs_loop s None d
              (visited, level + 1, AList.update (str (level + 1)) [] resU, enqueue None q1)"
          using go dq None False by (auto simp: simpsU)
        have runF: "bfs_loop s (Some c) d (visited, level, filter_levels p resU, q) =
            bfs_loop s (Some c) d (visited, level + 1,
              filter_levels p (AList.update (str (level + 1)) [] resU), enqueue None q1)"
          using go dq None False by (auto simp: simpsF fl)
        show ?thesis by (simp only: runU runF IH)
      qed
    next
      case (Some node)
      from "1.prems"(2) obtain ns where ns: "map_of resU (str level) = Some ns" by auto
      let ?resU1 = "AList.update (str level) (ns @ [node]) resU"
      have incU: "includeNode s None level node = Inr True" by (simp add: includeNode_def)
      have appU: "(if True then append_to_level (str level) node resU else Inr resU) = Inr ?resU1"
        by (simp add: append_to_level_def ns)
      obtain q2 visited2 where
        ch: "enqueueChildren (connections (deref s node)) (q1, insert node visited) = (q2, visited2)"
        by (cases "enqueueChildren (connections (deref s node)) (q1, insert node visited)")
      have "map_of ?resU1 (str level) \<noteq> None" by (simp add: map_of_update_same)
      from "1.hyps"(2)[OF go dq refl Some incU appU ch[symmetric] p this]
      have IH: "bfs_loop s (Some c) d (visited2, level, filter_levels p ?resU1, q2) =
          map_sum id (filter_levels p) (bfs_loop s None d (visited2, level, ?resU1, q2))" .
      have runU: "bfs_loop s None d (visited, level, resU, q) = bfs_loop s None d (visited2, level, ?resU1, q2)"
        using go dq Some incU ch by (simp add: simpsU append_to_level_def ns)
      let ?m = "level = 0 \<or> p node"
      have pn: "(getProperty (deref s node) key = Some val) = p node" unfolding p ..
      have incF: "includeNode s (Some c) level node = Inr ?m"
        by (simp add: includeNode_def doesNodeMatchQuery_parsed[OF c] pn)
      have nsF: "map_of (filter_levels p resU) (str level) =
          Some (if level = 0 then ns else filter p ns)"
        by (simp add: map_of_filter_levels ns str_eq_str_0)
      have resF: "(if ?m then append_to_level (str level) node (filter_levels p resU)
                   else Inr (filter_levels p resU)) = Inr (filter_levels p ?resU1)"
      proof (cases ?m)
        case True
        then show ?thesis
          by (auto simp: append_to_level_def nsF filter_levels_update str_eq_str_0)
      next
        case False
        then have "filter_levels p ?resU1 = AList.update (str level) (filter p ns) (filter_levels p resU)"
          by (simp add: filter_levels_update str_eq_str_0)
        also have "\<dots> = filter_levels p resU"
          using False nsF by (intro AList.update_triv) simp
        finally show ?thesis using False by simp
      qed
      have runF: "bfs_loop s (Some c) d (visited, level, filter_levels p resU, q) =
          bfs_loop s (Some c) d (visited2, level, filter_levels p ?resU1, q2)"
        using go dq Some incF resF ch by (simp add: simpsF)
      show ?thesis by (simp only: runU runF IH)
    qed
  qed
qed

text \<open>
  Claim C10. The queries are read-only: \<open>query\<close>, \<open>queryById\<close>, \<open>bfs\<close> and \<open>graphQuery\<close>
  leave the state they are called in (the objects with their labels, properties and
  connections, the node set, the index store and its set objects) as it was, whether they
  return a result or raise.
\<close>

theorem queries_read_only:
  "snd (query qq s) = s \<and> snd (queryById q s) = s \<and>
   snd (bfs startNode qc maxDepth s) = s \<and> snd (graphQuery q qc maxDepth s) = s"
  by simp

lemma bfs_unfiltered_ok: "\<exists>resU. bfs startNode None maxDepth s = (Inr resU, s)"
proof (cases "bfs_loop s None maxDepth ({}, 0, [(str 0, [])], enqueue None (enqueue (Some startNode) []))")
  case (Inl e)
  from bfs_loop_error[OF Inl] show ?thesis by simp
next
  case (Inr res)
  then show ?thesis by (simp add: bfs_def)
qed

text \<open>
  Claim C8. \<open>bfs_loop\<close> is defined by well-founded recursion for every store, start node,
  filter and depth (the measure: the levels left, the unvisited connected nodes, the
  queue length), so every call of \<open>bfs\<close> returns. What it returns is either a result in
  which no node stands twice, over all levels, or the "Invalid Query" exception of a filter
  clause with more than one \<open>=\<close>; the store is unchanged in both cases.
\<close>

theorem bfs_terminates_without_revisit:
  "case bfs startNode qc maxDepth s of
     (Inr res, s') \<Rightarrow> s' = s \<and> distinct (concat (map snd res))
   | (Inl e, s') \<Rightarrow>
       s' = s \<and> e = InvalidQuery \<and> (\<exists>c. qc = Some c \<and> parseQueryClause c = Inl InvalidQuery)"
proof (cases "bfs_loop s qc maxDepth ({}, 0, [(str 0, [])], enqueue None (enqueue (Some startNode) []))")
  case (Inl e)
  from bfs_loop_error[OF Inl] Inl show ?thesis by (simp add: bfs_def)
next
  case (Inr res)
  have "bfs_inv {} [(str 0, [])] (enqueue None (enqueue (Some startNode) []))"
    by (simp add: bfs_inv_def res_nodes_def enqueue_def)
  from bfs_loop_distinct[OF Inr this] Inr show ?thesis
    by (simp add: bfs_def res_nodes_def)
qed

theorem bfs_terminates_without_revisit_witness:
  "fst (bfs 0 None 2 cycle_store) = Inr [(''0'', [0]), (''1'', [1, 2])] \<and>
   distinct (concat (map snd [(''0'', [0::nat]), (''1'', [1, 2])]))"
proof -
  have e: "fst (bfs 0 None 2 cycle_store) = Inr [(''0'', [0]), (''1'', [1, 2])]"
    by code_simp
  then obtain s' where "bfs 0 None 2 cycle_store = (Inr [(''0'', [0]), (''1'', [1, 2])], s')"
    by (cases "bfs 0 None 2 cycle_store") simp
  with bfs_terminates_without_revisit[where startNode = 0 and qc = None and maxDepth = 2 and s = cycle_store] e show ?thesis by simp
qed

lemma graphQuery_bfs:
  "queryById q s = (Inr startNode, s) \<Longrightarrow> graphQuery q qc maxDepth s = bfs startNode qc maxDepth s"
  by (simp add: graphQuery_def)

lemma bfs_loop_filter_returns:
  "p = (\<lambda>n. doesNodeMatchQuery (deref s n) c = Inr True) \<Longrightarrow>
   bfs_loop s None d (visited, level, resU, q) = Inr resU' \<Longrightarrow>
   bfs_loop s (Some c) d (visited, level, filter_levels p resU, q) = Inr res \<Longrightarrow>
   map_of resU (str level) \<noteq> None \<Longrightarrow> res = filter_levels p resU'"
proof (induction s qc\<equiv>"None :: string option" d "(visited, level, resU, q)"
    arbitrary: visited level resU q rule: bfs_loop.induct)
  case (1 s d visited level resU q)
  note p = "1.prems"(1) and runU = "1.prems"(2) and runF = "1.prems"(3)
  note simpsU = bfs_loop.simps[of s None d visited level resU q]
  note simpsF = bfs_loop.simps[of s "Some c" d visited level "filter_levels p resU" q]
  show ?case
  proof (cases "\<not> isEmpty q \<and> level \<le> d")
    case False
    from runU False have "resU' = resU" by (auto simp: simpsU)
    moreover from runF False have "res = filter_levels p resU" by (auto simp: simpsF)
    ultimately show ?thesis by simp
  next
    case go: True
    then obtain item q1 where q: "q = item # q1" by (cases q) (auto simp: isEmpty_def)
    then have dq: "dequeue q = Inr (item, q1)" by (simp add: dequeue_def)
    show ?thesis
    proof (cases item)
      case None
      show ?thesis
      proof (cases "peek q1 = None")
        case True
        from runU go dq None True have "resU' = resU" by (simp add: simpsU)
        moreover from runF go dq None True have "res = filter_levels p resU"
          by (simp add: simpsF)
        ultimately show ?thesis by simp
      next
        case False
        have fl: "filter_levels p (AList.update (str (level + 1)) [] resU) =
            AList.update (str (level + 1)) [] (filter_levels p resU)"
          by (simp add: filter_levels_update)
        have stepU: "bfs_loop s None d
              (visited, level + 1, AList.update (str (level + 1)) [] resU, enqueue None q1) = Inr resU'"
          using go dq None False runU by (auto simp: simpsU)
        have stepF: "bfs_loop s (Some c) d (visited, level + 1,
              filter_levels p (AList.update (str (level + 1)) [] resU), enqueue None q1) = Inr res"
          using go dq None False runF by (auto simp: simpsF fl)
        have "map_of (AList.update (str (level + 1)) [] resU) (str (level + 1)) \<noteq> None"
          by (simp add: map_of_update_same)
        from "1.hyps"(1)[OF go dq refl None False p stepU stepF this] show ?thesis .
      qed
    next
      case (Some node)
      from "1.prems"(4) obtain ns where ns: "map_of resU (str level) = Some ns" by auto
      let ?resU1 = "AList.update (str level) (ns @ [node]) resU"
      have incU: "includeNode s None level node = Inr True" by (simp add: includeNode_def)
      have appU: "(if True then append_to_level (str level) node resU else Inr resU) = Inr ?resU1"
        by (simp add: append_to_level_def ns)
      obtain q2 visited2 where
        ch: "enqueueChildren (connections (deref s node)) (q1, insert node visited) = (q2, visited2)"
        by (cases "enqueueChildren (connections (deref s node)) (q1, insert node visited)")
      have stepU: "bfs_loop s None d (visited2, level, ?resU1, q2) = Inr resU'"
        using go dq Some incU ch runU by (simp add: simpsU append_to_level_def ns)
      let ?m = "level = 0 \<or> p node"
      have incF: "includeNode s (Some c) level node = Inr ?m"
      proof (cases "level = 0")
        case True
        then show ?thesis by (simp add: includeNode_def)
      next
        case False
        show ?thesis
        proof (cases "doesNodeMatchQuery (deref s node) c")
          case (Inl e)
          with False go dq Some runF show ?thesis by (simp add: simpsF includeNode_def)
        next
          case (Inr b)
          with False show ?thesis by (simp add: includeNode_def p)
        qed
      qed
      have nsF: "map_of (filter_levels p resU) (str level) =
          Some (if level = 0 then ns else filter p ns)"
        by (simp add: map_of_filter_levels ns str_eq_str_0)
      have resF: "(if ?m then append_to_level (str level) node (filter_levels p resU)
                   else Inr (filter_levels p resU)) = Inr (filter_levels p ?resU1)"
      proof (cases ?m)
        case True
        then show ?thesis
          by (auto simp: append_to_level_def nsF filter_levels_update str_eq_str_0)
      next
        case False
        then have "filter_levels p ?resU1 = AList.update (str level) (filter p ns) (filter_levels p resU)"
          by (simp add: filter_levels_update str_eq_str_0)
        also have "\<dots> = filter_levels p resU"
          using False nsF by (intro AList.update_triv) simp
        finally show ?thesis using False by simp
      qed
      have stepF: "bfs_loop s (Some c) d (visited2, level, filter_levels p ?resU1, q2) = Inr res"
        using go dq Some incF resF ch runF by (simp add: simpsF)
      have "map_of ?resU1 (str level) \<noteq> None" by (simp add: map_of_update_same)
      from "1.hyps"(2)[OF go dq refl Some incU appU ch[symmetric] p stepU stepF this]
      show ?thesis .
    qed
  qed
qed

lemma bfs_negative_depth:
  "maxDepth < 0 \<Longrightarrow> bfs startNode qc maxDepth s = (Inr [(str 0, [])], s)"
  by (simp add: bfs_def bfs_loop.simps)

text \<open>
  Claim C7, amended. For every call of \<open>bfs\<close> with a filter clause and a depth of at least
  0: the call returns a result, or raises the "Invalid Query" exception of a clause with
  more than one \<open>=\<close>. In a result, the list of level 0 is the start node alone, whatever
  its properties; and the result is that of the traversal without a filter, with every
  list but that of level 0 restricted to the nodes that \<open>doesNodeMatchQuery\<close> accepts.
  For a clause that parses to \<open>key = val\<close>, these are the nodes whose property \<open>key\<close> is
  present and equal to \<open>val\<close>. With a depth below 0 the loop is never entered and the
  result is the key of level 0 with an empty list. \<open>graphQuery\<close> is \<open>bfs\<close> from the node
  \<open>queryById\<close> resolves.
\<close>

theorem bfs_filter_levels:
  "(if 0 \<le> maxDepth then
      (case bfs startNode (Some clause) maxDepth s of
         (Inl e, s') \<Rightarrow> s' = s \<and> e = InvalidQuery \<and> parseQueryClause clause = Inl InvalidQuery
       | (Inr res, s') \<Rightarrow>
           s' = s \<and> map_of res (str 0) = Some [startNode] \<and>
           (\<exists>resU. bfs startNode None maxDepth s = (Inr resU, s) \<and>
              map_of resU (str 0) = Some [startNode] \<and>
              res = filter_levels (\<lambda>n. doesNodeMatchQuery (deref s n) clause = Inr True) resU))
    else bfs startNode (Some clause) maxDepth s = (Inr [(str 0, [])], s)) \<and>
   (\<forall>n key val. parseQueryClause clause = Inr (key, val) \<longrightarrow>
      doesNodeMatchQuery n clause = Inr (getProperty n key = Some val))"
proof -
  let ?p = "\<lambda>n. doesNodeMatchQuery (deref s n) clause = Inr True"
  let ?q0 = "enqueue None (enqueue (Some startNode) [])"
  have B: "\<forall>n key val. parseQueryClause clause = Inr (key, val) \<longrightarrow>
      doesNodeMatchQuery n clause = Inr (getProperty n key = Some val)"
    by (simp add: doesNodeMatchQuery_parsed)
  have A: "if 0 \<le> maxDepth then
      (case bfs startNode (Some clause) maxDepth s of
         (Inl e, s') \<Rightarrow> s' = s \<and> e = InvalidQuery \<and> parseQueryClause clause = Inl InvalidQuery
       | (Inr res, s') \<Rightarrow>
           s' = s \<and> map_of res (str 0) = Some [startNode] \<and>
           (\<exists>resU. bfs startNode None maxDepth s = (Inr resU, s) \<and>
              map_of resU (str 0) = Some [startNode] \<and>
              res = filter_levels ?p resU))
    else bfs startNode (Some clause) maxDepth s = (Inr [(str 0, [])], s)"
  proof (cases "0 \<le> maxDepth")
    case False
    then show ?thesis by (simp add: bfs_negative_depth)
  next
    case True
    show ?thesis
    proof (cases "bfs_loop s (Some clause) maxDepth ({}, 0, [(str 0, [])], ?q0)")
      case (Inl e)
      from bfs_loop_error[OF Inl] Inl True show ?thesis by (simp add: bfs_def)
    next
      case (Inr res)
      then have f: "bfs startNode (Some clause) maxDepth s = (Inr res, s)" by (simp add: bfs_def)
      obtain resU where u: "bfs startNode None maxDepth s = (Inr resU, s)"
        using bfs_unfiltered_ok by blast
      then have lu: "bfs_loop s None maxDepth ({}, 0, [(str 0, [])], ?q0) = Inr resU"
        by (simp add: bfs_def)
      have f0: "filter_levels ?p [(str 0, [])] = [(str 0, [])]" by (simp add: filter_levels_def)
      have "res = filter_levels ?p resU"
        by (rule bfs_loop_filter_returns[OF refl lu]) (simp_all add: f0 Inr)
      with bfs_level0[OF True f] bfs_level0[OF True u] u f True show ?thesis by simp
    qed
  qed
  from A B show ?thesis by (rule conjI)
qed

theorem bfs_filter_levels_witness:
  "(0::int) \<le> 2 \<and>
   parseQueryClause ''gender=Female'' = Inr (''gender'', ''Female'') \<and>
   fst (bfs 0 None 2 family_store) = Inr [(''0'', [0]), (''1'', [1, 2])] \<and>
   fst (bfs 0 (Some ''gender=Female'') 2 family_store) = Inr [(''0'', [0]), (''1'', [1])] \<and>
   [(''0'', [0]), (''1'', [1])] =
     filter_levels (\<lambda>n. doesNodeMatchQuery (deref family_store n) ''gender=Female'' = Inr True)
       [(''0'', [0]), (''1'', [1, 2])] \<and>
   doesNodeMatchQuery (deref family_store 1) ''gender=Female''
     = Inr (getProperty (deref family_store 1) ''gender'' = Some ''Female'')"
proof -
  have h: "(0::int) \<le> 2" by simp
  have pc: "parseQueryClause ''gender=Female'' = Inr (''gender'', ''Female'')" by code_simp
  have u: "fst (bfs 0 None 2 family_store) = Inr [(''0'', [0]), (''1'', [1, 2])]" by code_simp
  have f: "fst (bfs 0 (Some ''gender=Female'') 2 family_store) = Inr [(''0'', [0]), (''1'', [1])]"
    by code_simp
  note T = bfs_filter_levels[where maxDepth = 2 and startNode = 0 and
      clause = "''gender=Female''" and s = family_store]
  from f obtain s' where f': "bfs 0 (Some ''gender=Female'') 2 family_store =
      (Inr [(''0'', [0]), (''1'', [1])], s')"
    by (cases "bfs 0 (Some ''gender=Female'') 2 family_store") simp
  from T[THEN conjunct1] h f' obtain resU where
    "bfs 0 None 2 family_store = (Inr resU, family_store)"
    "[(''0'', [0]), (''1'', [1])] =
       filter_levels (\<lambda>n. doesNodeMatchQuery (deref family_store n) ''gender=Female'' = Inr True) resU"
    by auto
  with u have 1: "[(''0'', [0]), (''1'', [1])] =
     filter_levels (\<lambda>n. doesNodeMatchQuery (deref family_store n) ''gender=Female'' = Inr True)
       [(''0'', [0]), (''1'', [1, 2])]" by simp
  from T[THEN conjunct2] pc have 2: "doesNodeMatchQuery (deref family_store 1) ''gender=Female''
     = Inr (getProperty (deref family_store 1) ''gender'' = Some ''Female'')" by blast
  from h pc u f 1 2 show ?thesis by blast
qed

text \<open>
  With a negative depth the loop is never entered and level 0 stays empty: the start node
  is not in it.
\<close>

theorem bfs_negative_depth_counterexample:
  "fst (graphQuery ''Person:eljo'' (Some ''gender=Female'') (- 1) family_store) = Inr [(''0'', [])]"
  by code_simp

text \<open>
  Claim C3. On the chain A, B, C (the nodes 0, 1 and 2 of \<open>chain_store\<close>), \<open>graphQuery\<close>
  from A without a filter gives the levels \<open>[A]\<close>, \<open>[B]\<close>, \<open>[C]\<close> for depth 2. For depth 1
  it gives \<open>[A]\<close>, \<open>[B]\<close> and a third key \<open>2\<close> with an empty list: the marker that ends
  level 1 creates the key of level 2 before the loop condition stops the traversal. C is
  in no list.
\<close>

theorem graphQuery_chain_depth:
  "fst (graphQuery ''Person:A'' None 2 chain_store) = Inr [(''0'', [0]), (''1'', [1]), (''2'', [2])] \<and>
   fst (graphQuery ''Person:A'' None 1 chain_store) = Inr [(''0'', [0]), (''1'', [1]), (''2'', [])] \<and>
   map label (objects chain_store) = [''Person'', ''Person'', ''Person''] \<and>
   map properties (objects chain_store) = [[(''id'', ''A'')], [(''id'', ''B'')], [(''id'', ''C'')]] \<and>
   map connections (objects chain_store) = [[1], [0, 2], [1]] \<and>
   nodes chain_store = [0, 1, 2]"
  by code_simp

section \<open>Indexing\<close>

lemma index_new_label:
  assumes "indexeStore s l = None"
  defines "n \<equiv> length (setObjects s)"
  shows "\<exists>s'. index l (Some k) (Some v) r s = (Inr (), s') \<and>
     objects s' = objects s \<and> nodes s' = nodes s \<and>
     setObjects s' = setObjects s @ [[r], [r]] \<and>
     allIndexSets s' = allIndexSets s @ [Suc n] \<and>
     (\<forall>l'. indexeStore s' l' \<noteq> None \<longleftrightarrow> l' = l \<or> indexeStore s l' \<noteq> None) \<and>
     (\<forall>l' k' v'. lookup3 s' l' k' v' =
        (if l' = l \<and> k' = Some k \<and> v' = Some v then Some (Suc n)
         else if l' = l \<and> k' = None \<and> v' = None then Some n
         else lookup3 s l' k' v'))"
  using assms
  by (auto simp: index_def lookup3_def the_set_def set_add_def Let_def nth_append list_update_append)

lemma index_new_key:
  assumes "indexeStore s l = Some byKey" "byKey None = Some byNone" "byNone None = Some a0"
     "a0 < length (setObjects s)"
    and "lookup3 s l (Some k) (Some v) = None"
  defines "n \<equiv> length (setObjects s)"
  shows "\<exists>s'. index l (Some k) (Some v) r s = (Inr (), s') \<and>
     objects s' = objects s \<and> nodes s' = nodes s \<and>
     setObjects s' = (setObjects s)[a0 := set_add r (setObjects s ! a0)] @ [[r]] \<and>
     allIndexSets s' = allIndexSets s @ [n] \<and>
     (\<forall>l'. indexeStore s' l' \<noteq> None \<longleftrightarrow> indexeStore s l' \<noteq> None) \<and>
     (\<forall>l' k' v'. lookup3 s' l' k' v' =
        (if l' = l \<and> k' = Some k \<and> v' = Some v then Some n
         else lookup3 s l' k' v'))"
  using assms
  by (auto simp: index_def lookup3_def the_set_def set_add_def Let_def nth_append list_update_append
      split: option.splits)

lemma index_old:
  assumes "indexeStore s l = Some byKey" "byKey None = Some byNone" "byNone None = Some a0"
     "a0 < length (setObjects s)"
    and "lookup3 s l (Some k) (Some v) = Some a" "a < length (setObjects s)"
  shows "\<exists>s'. index l (Some k) (Some v) r s = (Inr (), s') \<and>
     objects s' = objects s \<and> nodes s' = nodes s \<and>
     setObjects s' = ((setObjects s)[a := set_add r (setObjects s ! a)])
        [a0 := set_add r ((setObjects s)[a := set_add r (setObjects s ! a)] ! a0)] \<and>
     allIndexSets s' = allIndexSets s \<and>
     (\<forall>l'. indexeStore s' l' \<noteq> None \<longleftrightarrow> indexeStore s l' \<noteq> None) \<and>
     (\<forall>l' k' v'. lookup3 s' l' k' v' = lookup3 s l' k' v')"
  using assms
  by (auto simp: index_def lookup3_def the_set_def Let_def fun_upd_idem
      split: option.splits)


lemma index_sets_okD:
  assumes "index_sets_ok s"
  shows "indexeStore s l \<noteq> None \<Longrightarrow> lookup3 s l None None \<noteq> None"
    and "lookup3 s l k v = Some a \<Longrightarrow> a < length (setObjects s)"
    and "lookup3 s l k v = Some a \<Longrightarrow> lookup3 s l' k' v' = Some a \<Longrightarrow> l = l' \<and> k = k' \<and> v = v'"
    and "lookup3 s l (Some p) (Some w) = Some a \<Longrightarrow> a \<in> set (allIndexSets s)"
    and "lookup3 s l None None = Some a \<Longrightarrow> a \<notin> set (allIndexSets s)"
    and "a \<in> set (allIndexSets s) \<Longrightarrow> a < length (setObjects s)"
  using assms unfolding index_sets_ok_def by blast+

lemma index_step_ok:
  assumes ok: "index_sets_ok s"
    and lk: "\<And>l' k' v'. lookup3 s' l' k' v' =
        (if l' = l \<and> k' = Some k \<and> v' = Some v then Some a
         else if l' = l \<and> k' = None \<and> v' = None then Some a0
         else lookup3 s l' k' v')"
    and a0: "lookup3 s l None None = Some a0 \<or>
             (lookup3 s l None None = None \<and> length (setObjects s) \<le> a0)"
    and a: "(lookup3 s l (Some k) (Some v) = Some a \<and> allIndexSets s' = allIndexSets s) \<or>
            (lookup3 s l (Some k) (Some v) = None \<and> length (setObjects s) \<le> a \<and>
             allIndexSets s' = allIndexSets s @ [a])"
    and ne: "a \<noteq> a0"
    and len: "a < length (setObjects s')" "a0 < length (setObjects s')"
        "length (setObjects s) \<le> length (setObjects s')"
    and st: "\<And>l'. indexeStore s' l' \<noteq> None \<longleftrightarrow> l' = l \<or> indexeStore s l' \<noteq> None"
  shows "index_sets_ok s'"
proof -
  note D = index_sets_okD[OF ok]
  have old_lt: "x < length (setObjects s)" if "lookup3 s l1 k1 v1 = Some x" for l1 k1 v1 x
    using D(2) that by blast
  have c1: "lookup3 s' l1 None None \<noteq> None" if "indexeStore s' l1 \<noteq> None" for l1
    using that st[of l1] D(1)[of l1] by (auto simp: lk)
  have c2: "x < length (setObjects s')" if "lookup3 s' l1 k1 v1 = Some x" for l1 k1 v1 x
    using that len old_lt[of l1 k1 v1 x] by (auto simp: lk split: if_splits)
  have a_old: "l1 = l \<and> k1 = Some k \<and> v1 = Some v" if "lookup3 s l1 k1 v1 = Some a" for l1 k1 v1
    using a that old_lt[OF that] D(3)[OF that, of l "Some k" "Some v"] by auto
  have a0_old: "l1 = l \<and> k1 = None \<and> v1 = None" if "lookup3 s l1 k1 v1 = Some a0" for l1 k1 v1
    using a0 that old_lt[OF that] D(3)[OF that, of l None None] by auto
  have split: "(x = a \<and> l1 = l \<and> k1 = Some k \<and> v1 = Some v) \<or>
      (x = a0 \<and> l1 = l \<and> k1 = None \<and> v1 = None) \<or>
      (x \<noteq> a \<and> x \<noteq> a0 \<and> lookup3 s l1 k1 v1 = Some x)"
    if "lookup3 s' l1 k1 v1 = Some x" for l1 k1 v1 x
  proof (cases "l1 = l \<and> k1 = Some k \<and> v1 = Some v")
    case True
    with that show ?thesis by (simp add: lk)
  next
    case nkv: False
    show ?thesis
    proof (cases "l1 = l \<and> k1 = None \<and> v1 = None")
      case True
      with that show ?thesis by (simp add: lk)
    next
      case False
      with nkv that have o: "lookup3 s l1 k1 v1 = Some x" by (auto simp: lk split: if_splits)
      with nkv False a_old[of l1 k1 v1] a0_old[of l1 k1 v1] show ?thesis by blast
    qed
  qed
  have c3: "l1 = l2 \<and> k1 = k2 \<and> v1 = v2"
    if "lookup3 s' l1 k1 v1 = Some x" "lookup3 s' l2 k2 v2 = Some x" for l1 k1 v1 l2 k2 v2 x
    using split[OF that(1)] split[OF that(2)] ne D(3)[of l1 k1 v1 x l2 k2 v2] by blast
  have c4: "x \<in> set (allIndexSets s')" if "lookup3 s' l1 (Some p) (Some w) = Some x" for l1 p w x
    using that a D(4)[of l1 p w x] by (auto simp: lk split: if_splits)
  have c5: "x \<notin> set (allIndexSets s')" if "lookup3 s' l1 None None = Some x" for l1 x
  proof (cases "l1 = l")
    case True
    with that have x: "x = a0" by (simp add: lk)
    from a0 have "a0 \<notin> set (allIndexSets s)"
      using D(5)[of l a0] D(6)[of a0] by auto
    with a ne x show ?thesis by auto
  next
    case False
    with that have o: "lookup3 s l1 None None = Some x" by (simp add: lk)
    from D(5)[OF o] a a_old[of l1 None None] o show ?thesis by auto
  qed
  have c6: "x < length (setObjects s')" if "x \<in> set (allIndexSets s')" for x
    using that a len D(6)[of x] by auto
  show ?thesis
    unfolding index_sets_ok_def
  proof (intro conjI allI impI ballI, goal_cases)
    case 1 then show ?case by (rule c1)
  next
    case 2 then show ?case by (rule c2)
  next
    case 3 then show ?case using c3 by blast
  next
    case 4 then show ?case using c3 by blast
  next
    case 5 then show ?case using c3 by blast
  next
    case 6 then show ?case by (rule c4)
  next
    case 7 then show ?case by (rule c5)
  next
    case 8 then show ?case by (rule c6)
  qed
qed

lemma index_step_indexed:
  assumes ok: "index_sets_ok s"
    and lk: "\<And>l' k' v'. lookup3 s' l' k' v' =
        (if l' = l \<and> k' = Some k \<and> v' = Some v then Some a
         else if l' = l \<and> k' = None \<and> v' = None then Some a0
         else lookup3 s l' k' v')"
    and a0: "lookup3 s l None None = Some a0 \<or>
             (lookup3 s l None None = None \<and> length (setObjects s) \<le> a0)"
    and a: "lookup3 s l (Some k) (Some v) = Some a \<or>
            (lookup3 s l (Some k) (Some v) = None \<and> length (setObjects s) \<le> a)"
    and len: "length (setObjects s) \<le> length (setObjects s')"
    and sets: "\<And>x. set (the_set s' x) = set (the_set s x) \<union> (if x = a \<or> x = a0 then {r} else {})"
  shows "indexed s' l' k' v' = indexed s l' k' v' \<union>
        (if l' = l \<and> (k' = Some k \<and> v' = Some v \<or> k' = None \<and> v' = None) then {r} else {})"
proof -
  note D = index_sets_okD[OF ok]
  have fresh: "the_set s x = []" if "length (setObjects s) \<le> x" for x
    using that by (simp add: the_set_def)
  consider (kv) "l' = l" "k' = Some k" "v' = Some v"
    | (lab) "l' = l" "k' = None" "v' = None"
    | (other) "\<not> (l' = l \<and> (k' = Some k \<and> v' = Some v \<or> k' = None \<and> v' = None))"
    by blast
  then show ?thesis
  proof cases
    case kv
    with a fresh[of a] show ?thesis by (auto simp: indexed_def lk sets)
  next
    case lab
    with a0 fresh[of a0] show ?thesis by (auto simp: indexed_def lk sets)
  next
    case other
    then have same: "lookup3 s' l' k' v' = lookup3 s l' k' v'" by (auto simp: lk)
    show ?thesis
    proof (cases "lookup3 s l' k' v'")
      case None
      with same other show ?thesis by (simp add: indexed_def)
    next
      case (Some x)
      have "x \<noteq> a"
        using a D(2)[OF Some] D(3)[OF Some, of l "Some k" "Some v"] other by auto
      moreover have "x \<noteq> a0"
        using a0 D(2)[OF Some] D(3)[OF Some, of l None None] other by auto
      ultimately have "set (the_set s' x) = set (the_set s x)" by (simp add: sets)
      with same Some other show ?thesis by (auto simp: indexed_def)
    qed
  qed
qed


lemma set_set_add [simp]: "set (set_add x xs) = insert x (set xs)"
  by (auto simp: set_add_def)

lemma lookup3_label_set:
  "lookup3 s l None None = Some a0 \<Longrightarrow>
   \<exists>byKey byNone. indexeStore s l = Some byKey \<and> byKey None = Some byNone \<and> byNone None = Some a0"
  by (auto simp: lookup3_def split: option.splits)

lemma index_flat:
  assumes ok: "index_sets_ok s"
  obtains s' a a0 where
    "index l (Some k) (Some v) r s = (Inr (), s')" "objects s' = objects s" "nodes s' = nodes s"
    "\<And>l' k' v'. lookup3 s' l' k' v' =
         (if l' = l \<and> k' = Some k \<and> v' = Some v then Some a
          else if l' = l \<and> k' = None \<and> v' = None then Some a0
          else lookup3 s l' k' v')"
    "lookup3 s l None None = Some a0 \<or>
       (lookup3 s l None None = None \<and> length (setObjects s) \<le> a0)"
    "(lookup3 s l (Some k) (Some v) = Some a \<and> allIndexSets s' = allIndexSets s) \<or>
       (lookup3 s l (Some k) (Some v) = None \<and> length (setObjects s) \<le> a \<and>
        allIndexSets s' = allIndexSets s @ [a])"
    "a \<noteq> a0" "a < length (setObjects s')" "a0 < length (setObjects s')"
    "length (setObjects s) \<le> length (setObjects s')"
    "\<And>l'. indexeStore s' l' \<noteq> None \<longleftrightarrow> l' = l \<or> indexeStore s l' \<noteq> None"
    "\<And>x. set (the_set s' x) = set (the_set s x) \<union> (if x = a \<or> x = a0 then {r} else {})"
proof -
  note D = index_sets_okD[OF ok]
  let ?n = "length (setObjects s)"
  show thesis
  proof (cases "indexeStore s l")
    case None
    then have none: "\<And>k' v'. lookup3 s l k' v' = None" by (simp add: lookup3_def)
    from index_new_label[OF None, of k v r] obtain s' where
      s': "index l (Some k) (Some v) r s = (Inr (), s')" "objects s' = objects s" "nodes s' = nodes s"
        "setObjects s' = setObjects s @ [[r], [r]]"
        "allIndexSets s' = allIndexSets s @ [Suc ?n]"
        "\<forall>l'. indexeStore s' l' \<noteq> None \<longleftrightarrow> l' = l \<or> indexeStore s l' \<noteq> None"
        "\<forall>l' k' v'. lookup3 s' l' k' v' =
          (if l' = l \<and> k' = Some k \<and> v' = Some v then Some (Suc ?n)
           else if l' = l \<and> k' = None \<and> v' = None then Some ?n
           else lookup3 s l' k' v')"
      by blast
    have sets: "set (the_set s' x) = set (the_set s x) \<union> (if x = Suc ?n \<or> x = ?n then {r} else {})" for x
      by (auto simp: the_set_def s'(4) nth_append)
    show thesis
    proof (rule that[of s' "Suc ?n" ?n])
      show "lookup3 s' l' k' v' =
          (if l' = l \<and> k' = Some k \<and> v' = Some v then Some (Suc ?n)
           else if l' = l \<and> k' = None \<and> v' = None then Some ?n
           else lookup3 s l' k' v')" for l' k' v'
        using s'(7) by blast
      show "indexeStore s' l' \<noteq> None \<longleftrightarrow> l' = l \<or> indexeStore s l' \<noteq> None" for l'
        using s'(6) by blast
    qed (use s' none sets in simp_all)
  next
    case (Some byKey)
    with D(1)[of l] obtain a0 where a0: "lookup3 s l None None = Some a0" by auto
    from lookup3_label_set[OF a0] Some obtain byNone where
      bn: "byKey None = Some byNone" "byNone None = Some a0" by auto
    from D(2)[OF a0] have a0_lt: "a0 < ?n" .
    show ?thesis
    proof (cases "lookup3 s l (Some k) (Some v)")
      case None
      from index_new_key[OF Some bn a0_lt None, of r] obtain s' where
        s': "index l (Some k) (Some v) r s = (Inr (), s')" "objects s' = objects s" "nodes s' = nodes s"
          "setObjects s' = (setObjects s)[a0 := set_add r (setObjects s ! a0)] @ [[r]]"
          "allIndexSets s' = allIndexSets s @ [?n]"
          "\<forall>l'. indexeStore s' l' \<noteq> None \<longleftrightarrow> indexeStore s l' \<noteq> None"
          "\<forall>l' k' v'. lookup3 s' l' k' v' =
            (if l' = l \<and> k' = Some k \<and> v' = Some v then Some ?n else lookup3 s l' k' v')"
        by blast
      have sets: "set (the_set s' x) = set (the_set s x) \<union> (if x = ?n \<or> x = a0 then {r} else {})" for x
        using a0_lt by (auto simp: the_set_def s'(4) nth_append nth_list_update)
      show thesis
      proof (rule that[of s' ?n a0])
        show "lookup3 s' l' k' v' =
            (if l' = l \<and> k' = Some k \<and> v' = Some v then Some ?n
             else if l' = l \<and> k' = None \<and> v' = None then Some a0
             else lookup3 s l' k' v')" for l' k' v'
          using s'(7) a0 by simp
        show "indexeStore s' l' \<noteq> None \<longleftrightarrow> l' = l \<or> indexeStore s l' \<noteq> None" for l'
          using s'(6) Some by auto
      qed (use s' a0 a0_lt None sets in simp_all)
    next
      case (Some a)
      from D(2)[OF Some] have a_lt: "a < ?n" .
      have ne: "a \<noteq> a0" using D(3)[OF Some, of l None None] a0 by auto
      from index_old[OF \<open>indexeStore s l = Some byKey\<close> bn a0_lt Some a_lt, of r] obtain s' where
        s': "index l (Some k) (Some v) r s = (Inr (), s')" "objects s' = objects s" "nodes s' = nodes s"
          "setObjects s' = ((setObjects s)[a := set_add r (setObjects s ! a)])
              [a0 := set_add r ((setObjects s)[a := set_add r (setObjects s ! a)] ! a0)]"
          "allIndexSets s' = allIndexSets s"
          "\<forall>l'. indexeStore s' l' \<noteq> None \<longleftrightarrow> indexeStore s l' \<noteq> None"
          "\<forall>l' k' v'. lookup3 s' l' k' v' = lookup3 s l' k' v'"
        by blast
      have sets: "set (the_set s' x) = set (the_set s x) \<union> (if x = a \<or> x = a0 then {r} else {})" for x
        using a0_lt a_lt ne by (auto simp: the_set_def s'(4) nth_list_update)
      show thesis
      proof (rule that[of s' a a0])
        show "lookup3 s' l' k' v' =
            (if l' = l \<and> k' = Some k \<and> v' = Some v then Some a
             else if l' = l \<and> k' = None \<and> v' = None then Some a0
             else lookup3 s l' k' v')" for l' k' v'
          using s'(7) a0 Some by simp
        show "indexeStore s' l' \<noteq> None \<longleftrightarrow> l' = l \<or> indexeStore s l' \<noteq> None" for l'
          using s'(6) \<open>indexeStore s l = Some byKey\<close> by auto
      qed (use s' a0 a0_lt a_lt ne Some sets in simp_all)
    qed
  qed
qed

lemma index_effect:
  assumes ok: "index_sets_ok s"
  shows "\<exists>s'. index l (Some k) (Some v) r s = (Inr (), s') \<and> index_sets_ok s' \<and>
     objects s' = objects s \<and> nodes s' = nodes s \<and>
     (\<forall>l' k' v'. indexed s' l' k' v' =
        indexed s l' k' v' \<union>
        (if l' = l \<and> (k' = Some k \<and> v' = Some v \<or> k' = None \<and> v' = None) then {r} else {}))"
proof -
  obtain s' a a0 where
    s': "index l (Some k) (Some v) r s = (Inr (), s')" "objects s' = objects s" "nodes s' = nodes s"
    and lk: "\<And>l' k' v'. lookup3 s' l' k' v' =
         (if l' = l \<and> k' = Some k \<and> v' = Some v then Some a
          else if l' = l \<and> k' = None \<and> v' = None then Some a0
          else lookup3 s l' k' v')"
    and a0: "lookup3 s l None None = Some a0 \<or>
       (lookup3 s l None None = None \<and> length (setObjects s) \<le> a0)"
    and a: "(lookup3 s l (Some k) (Some v) = Some a \<and> allIndexSets s' = allIndexSets s) \<or>
       (lookup3 s l (Some k) (Some v) = None \<and> length (setObjects s) \<le> a \<and>
        allIndexSets s' = allIndexSets s @ [a])"
    and ne: "a \<noteq> a0" and len: "a < length (setObjects s')" "a0 < length (setObjects s')"
      "length (setObjects s) \<le> length (setObjects s')"
    and st: "\<And>l'. indexeStore s' l' \<noteq> None \<longleftrightarrow> l' = l \<or> indexeStore s l' \<noteq> None"
    and sets: "\<And>x. set (the_set s' x) = set (the_set s x) \<union> (if x = a \<or> x = a0 then {r} else {})"
    by (rule index_flat[OF ok, where l = l and k = k and v = v and r = r])
       (rule that; (assumption | blast))
  have ok': "index_sets_ok s'"
    by (rule index_step_ok[OF ok lk a0 a ne len st])
  have a': "lookup3 s l (Some k) (Some v) = Some a \<or>
            (lookup3 s l (Some k) (Some v) = None \<and> length (setObjects s) \<le> a)"
    using a by blast
  have "indexed s' l' k' v' = indexed s l' k' v' \<union>
        (if l' = l \<and> (k' = Some k \<and> v' = Some v \<or> k' = None \<and> v' = None) then {r} else {})"
    for l' k' v'
    by (rule index_step_indexed[OF ok lk a0 a' len(3) sets])
  with s' ok' show ?thesis by blast
qed

lemma deref_cong: "objects s' = objects s \<Longrightarrow> deref s' r = deref s r"
  by (simp add: deref_def)

lemma reindexing_index:
  assumes ok: "index_sets_ok s" and re: "reindexing s r P Q"
  shows "\<exists>s'. index (label (deref s r)) (Some k) (Some v) r s = (Inr (), s') \<and> index_sets_ok s' \<and>
     objects s' = objects s \<and> nodes s' = nodes s \<and> reindexing s' r (insert (k, v) P) True"
proof -
  from index_effect[OF ok, of "label (deref s r)" k v r] obtain s' where
    s': "index (label (deref s r)) (Some k) (Some v) r s = (Inr (), s')" "index_sets_ok s'"
      "objects s' = objects s" "nodes s' = nodes s"
    and ix: "\<And>l' k' v'. indexed s' l' k' v' = indexed s l' k' v' \<union>
        (if l' = label (deref s r) \<and> (k' = Some k \<and> v' = Some v \<or> k' = None \<and> v' = None)
         then {r} else {})"
    by blast
  have d: "deref s' x = deref s x" for x by (rule deref_cong[OF s'(3)])
  have "reindexing s' r (insert (k, v) P) True"
    unfolding reindexing_def
  proof (intro conjI allI)
    fix l k' v'
    show "indexed s' l (Some k') (Some v') =
        {r' \<in> set (nodes s'). r' \<noteq> r \<and> label (deref s' r') = l \<and> getProperty (deref s' r') k' = Some v'}
        \<union> (if l = label (deref s' r) \<and> (k', v') \<in> insert (k, v) P then {r} else {})"
      using re[unfolded reindexing_def, THEN conjunct1, rule_format, of l k' v']
      by (auto simp: ix d s'(4))
  next
    fix l
    show "indexed s' l None None =
        {r' \<in> set (nodes s'). r' \<noteq> r \<and> label (deref s' r') = l}
        \<union> (if l = label (deref s' r) \<and> True then {r} else {})"
      using re[unfolded reindexing_def, THEN conjunct2, rule_format, of l]
      by (auto simp: ix d s'(4))
  qed
  with s' show ?thesis by blast
qed

lemma reindexing_addIndex_items:
  "index_sets_ok s \<Longrightarrow> reindexing s r P Q \<Longrightarrow> l = label (deref s r) \<Longrightarrow>
   \<exists>s'. addIndex_items l r items s = (Inr (), s') \<and> index_sets_ok s' \<and>
     objects s' = objects s \<and> nodes s' = nodes s \<and>
     reindexing s' r (P \<union> set items) (Q \<or> items \<noteq> [])"
proof (induction items arbitrary: s P Q)
  case Nil
  then show ?case by simp
next
  case (Cons kv items)
  obtain k v where kv: "kv = (k, v)" by (cases kv)
  from reindexing_index[OF Cons.prems(1,2), of k v] obtain s1 where
    s1: "index (label (deref s r)) (Some k) (Some v) r s = (Inr (), s1)" "index_sets_ok s1"
      "objects s1 = objects s" "nodes s1 = nodes s" "reindexing s1 r (insert (k, v) P) True"
    by blast
  have l1: "l = label (deref s1 r)" using Cons.prems(3) deref_cong[OF s1(3)] by simp
  from Cons.IH[OF s1(2) s1(5) l1] obtain s' where
    s': "addIndex_items l r items s1 = (Inr (), s')" "index_sets_ok s'"
      "objects s' = objects s1" "nodes s' = nodes s1"
      "reindexing s' r (insert (k, v) P \<union> set items) (True \<or> items \<noteq> [])"
    by blast
  have "addIndex_items l r (kv # items) s = (Inr (), s')"
    using s1(1) s'(1) Cons.prems(3) kv by simp
  moreover have "reindexing s' r (P \<union> set (kv # items)) (Q \<or> kv # items \<noteq> [])"
    using s'(5) kv by simp
  ultimately show ?case using s' s1 by auto
qed

lemma unIndex_step_length [simp]: "length (unIndex_step r a sets) = length sets"
  by (simp add: unIndex_step_def)

lemma unIndex_step_nth:
  "x < length sets \<Longrightarrow>
   unIndex_step r a sets ! x = (if x = a then removeAll r (sets ! x) else sets ! x)"
  by (auto simp: unIndex_step_def set_remove_def nth_list_update)

lemma unIndex_fold_length [simp]: "length (fold (unIndex_step r) as sets) = length sets"
  by (induction as arbitrary: sets) simp_all

lemma unIndex_fold_nth:
  "x < length sets \<Longrightarrow>
   fold (unIndex_step r) as sets ! x =
   (if x \<in> set as then removeAll r (sets ! x) else sets ! x)"
  by (induction as arbitrary: sets) (simp_all add: unIndex_step_nth)

lemma lookup3_cong: "indexeStore s' = indexeStore s \<Longrightarrow> lookup3 s' = lookup3 s"
  by (simp add: lookup3_def fun_eq_iff)

lemma index_sets_ok_cong:
  "indexeStore s' = indexeStore s \<Longrightarrow> allIndexSets s' = allIndexSets s \<Longrightarrow>
   length (setObjects s') = length (setObjects s) \<Longrightarrow> index_sets_ok s' = index_sets_ok s"
proof -
  assume a: "indexeStore s' = indexeStore s" "allIndexSets s' = allIndexSets s"
    "length (setObjects s') = length (setObjects s)"
  have "lookup3 s' = lookup3 s" by (rule lookup3_cong[OF a(1)])
  then show ?thesis by (simp add: index_sets_ok_def a)
qed

lemma indexed_cong:
  "indexeStore s' = indexeStore s \<Longrightarrow> setObjects s' = setObjects s \<Longrightarrow> indexed s' = indexed s"
proof -
  assume a: "indexeStore s' = indexeStore s" and b: "setObjects s' = setObjects s"
  have "lookup3 s' = lookup3 s" by (rule lookup3_cong[OF a])
  then show ?thesis by (simp add: indexed_def the_set_def b fun_eq_iff cong: option.case_cong)
qed

lemma unIndex_fields [simp]:
  "objects (unIndex r s) = objects s" "nodes (unIndex r s) = nodes s"
  "indexeStore (unIndex r s) = indexeStore s" "allIndexSets (unIndex r s) = allIndexSets s"
  "length (setObjects (unIndex r s)) = length (setObjects s)"
  by (simp_all add: unIndex_def)

lemma the_set_unIndex:
  "the_set (unIndex r s) a =
     (if a \<in> set (allIndexSets s) then removeAll r (the_set s a) else the_set s a)"
  by (simp add: the_set_def unIndex_def unIndex_fold_nth)

lemma unIndex_ok: "index_sets_ok (unIndex r s) = index_sets_ok s"
  by (rule index_sets_ok_cong) simp_all

lemma indexed_unIndex:
  assumes ok: "index_sets_ok s"
  shows "indexed (unIndex r s) l (Some k) (Some v) = indexed s l (Some k) (Some v) - {r}"
    and "indexed (unIndex r s) l None None = indexed s l None None"
proof -
  have lk: "lookup3 (unIndex r s) = lookup3 s" by (rule lookup3_cong) simp
  show "indexed (unIndex r s) l (Some k) (Some v) = indexed s l (Some k) (Some v) - {r}"
    using index_sets_okD(4)[OF ok, of l k v]
    by (auto simp: indexed_def lk the_set_unIndex split: option.splits)
  show "indexed (unIndex r s) l None None = indexed s l None None"
    using index_sets_okD(5)[OF ok, of l]
    by (auto simp: indexed_def lk the_set_unIndex split: option.splits)
qed

lemma reindexing_unIndex:
  assumes ok: "index_sets_ok s" and re: "reindexing s r P Q"
  shows "reindexing (unIndex r s) r {} Q"
proof -
  have d: "deref (unIndex r s) x = deref s x" for x by (rule deref_cong) simp
  show ?thesis
    unfolding reindexing_def
  proof (intro conjI allI)
    fix l k v
    show "indexed (unIndex r s) l (Some k) (Some v) =
        {r' \<in> set (nodes (unIndex r s)). r' \<noteq> r \<and> label (deref (unIndex r s) r') = l \<and>
            getProperty (deref (unIndex r s) r') k = Some v}
        \<union> (if l = label (deref (unIndex r s) r) \<and> (k, v) \<in> {} then {r} else {})"
      using re[unfolded reindexing_def, THEN conjunct1, rule_format, of l k v]
      by (auto simp: indexed_unIndex[OF ok] d)
  next
    fix l
    show "indexed (unIndex r s) l None None =
        {r' \<in> set (nodes (unIndex r s)). r' \<noteq> r \<and> label (deref (unIndex r s) r') = l}
        \<union> (if l = label (deref (unIndex r s) r) \<and> Q then {r} else {})"
      using re[unfolded reindexing_def, THEN conjunct2, rule_format, of l]
      by (simp add: indexed_unIndex[OF ok] d)
  qed
qed

lemma reIndex_effect:
  assumes ok: "index_sets_ok s" and re: "reindexing s r P Q"
    and ne: "Q \<or> properties (deref s r) \<noteq> []"
  shows "\<exists>s'. reIndex r s = (Inr (), s') \<and> index_sets_ok s' \<and>
     objects s' = objects s \<and> nodes s' = nodes s \<and>
     reindexing s' r (set (properties (deref s r))) True"
proof -
  let ?u = "unIndex r s"
  have d: "deref ?u r = deref s r" by (rule deref_cong) simp
  have oku: "index_sets_ok ?u" using ok by (simp add: unIndex_ok)
  from reindexing_addIndex_items[OF oku reindexing_unIndex[OF ok re] refl,
      of "properties (deref ?u r)"]
  obtain s' where "addIndex_items (label (deref ?u r)) r (properties (deref ?u r)) ?u = (Inr (), s')"
    "index_sets_ok s'" "objects s' = objects ?u" "nodes s' = nodes ?u"
    "reindexing s' r ({} \<union> set (properties (deref ?u r))) (Q \<or> properties (deref ?u r) \<noteq> [])"
    by blast
  with ne d show ?thesis
    by (auto simp: reIndex_def addIndex_def)
qed

lemma consistent_iff_reindexing:
  assumes "r \<in> set (nodes s)" "distinct (map fst (properties (deref s r)))"
  shows "consistent s \<longleftrightarrow> reindexing s r (set (properties (deref s r))) True"
proof -
  have m: "getProperty (deref s r) k = Some v \<longleftrightarrow> (k, v) \<in> set (properties (deref s r))" for k v
    using assms(2) by (simp add: getProperty_def)
  have 1: "{r' \<in> set (nodes s). label (deref s r') = l \<and> getProperty (deref s r') k = Some v} =
      {r' \<in> set (nodes s). r' \<noteq> r \<and> label (deref s r') = l \<and> getProperty (deref s r') k = Some v}
      \<union> (if l = label (deref s r) \<and> (k, v) \<in> set (properties (deref s r)) then {r} else {})"
    for l k v
    using assms(1) m[of k v] by auto
  have 2: "{r' \<in> set (nodes s). label (deref s r') = l} =
      {r' \<in> set (nodes s). r' \<noteq> r \<and> label (deref s r') = l}
      \<union> (if l = label (deref s r) \<and> True then {r} else {})" for l
    using assms(1) by auto
  show ?thesis unfolding consistent_def reindexing_def 1 2 ..
qed

section \<open>The operations keep the invariant\<close>

lemma deref_update:
  "deref (s\<lparr>objects := (objects s)[i := x]\<rparr>) r =
     (if r = i \<and> i < length (objects s) then x else deref s r)"
  by (auto simp: deref_def)

lemma queryById_Inl: "queryById q s = (Inl e, s') \<Longrightarrow> s' = s"
  using snd_queryById[of q s] by simp

lemma queryById_Inr:
  assumes "queryById q s = (Inr r, s')"
  shows "s' = s \<and> (\<exists>l v. parseQueryQualifier q = Inr (l, Some ''id'', Some v) \<and>
     r \<in> indexed s l (Some ''id'') (Some v))"
proof -
  have "s' = s" using snd_queryById[of q s] assms by simp
  moreover from assms obtain l k v where p: "parseQueryQualifier q = Inr (l, k, v)"
    by (cases "parseQueryQualifier q") (auto simp: queryById_def)
  moreover from assms p have k: "k = Some ''id''"
    by (auto simp: queryById_def split: if_splits)
  moreover from p k have "v \<noteq> None"
    by (auto simp: parseQueryQualifier_def Let_def split: if_splits sum.splits)
  moreover from assms p k have "r \<in> indexed s l (Some ''id'') v"
    by (auto simp: queryById_def indexed_def split: option.splits list.splits)
  ultimately show ?thesis by auto
qed

lemma queryById_node:
  assumes "consistent s" "queryById q s = (Inr r, s')"
  shows "r \<in> set (nodes s)"
  using queryById_Inr[OF assms(2)] assms(1) by (auto simp: consistent_def)

lemma reindexing_cong:
  assumes "indexeStore s' = indexeStore s" "setObjects s' = setObjects s" "nodes s' = nodes s"
    and "\<And>x. x \<in> set (nodes s) \<Longrightarrow> x \<noteq> r \<Longrightarrow> deref s' x = deref s x"
    and "label (deref s' r) = label (deref s r)"
  shows "reindexing s' r P Q = reindexing s r P Q"
proof -
  have i: "indexed s' = indexed s" by (rule indexed_cong[OF assms(1,2)])
  have 1: "{r' \<in> set (nodes s). r' \<noteq> r \<and> label (deref s' r') = l \<and> getProperty (deref s' r') k = Some v}
      = {r' \<in> set (nodes s). r' \<noteq> r \<and> label (deref s r') = l \<and> getProperty (deref s r') k = Some v}"
    for l k v using assms(4) by auto
  have 2: "{r' \<in> set (nodes s). r' \<noteq> r \<and> label (deref s' r') = l}
      = {r' \<in> set (nodes s). r' \<noteq> r \<and> label (deref s r') = l}" for l
    using assms(4) by auto
  show ?thesis unfolding reindexing_def i assms(3,5) 1 2 ..
qed

lemma store_inv_reIndexed:
  assumes ok: "index_sets_ok s2" and re: "reindexing s2 r P Q"
    and ne: "Q \<or> properties (deref s2 r) \<noteq> []"
    and r: "r \<in> set (nodes s2)" and n: "nodes_ok s2"
  shows "\<exists>s'. reIndex r s2 = (Inr (), s') \<and> store_inv s' \<and> objects s' = objects s2 \<and>
     nodes s' = nodes s2"
proof -
  from reIndex_effect[OF ok re ne] obtain s' where
    s': "reIndex r s2 = (Inr (), s')" "index_sets_ok s'" "objects s' = objects s2"
      "nodes s' = nodes s2" "reindexing s' r (set (properties (deref s2 r))) True"
    by blast
  have d: "deref s' x = deref s2 x" for x by (rule deref_cong[OF s'(3)])
  have n': "nodes_ok s'" using n by (simp add: nodes_ok_def s'(3,4) d)
  have "consistent s'"
    using consistent_iff_reindexing[of r s'] r n s'(5)
    by (simp add: s'(4) d nodes_ok_def)
  with s' n' show ?thesis by (auto simp: store_inv_def)
qed

lemma addOrUpdateNodeProperty_inv:
  assumes inv: "store_inv s" and run: "addOrUpdateNodeProperty q name val s = (res, s')"
  shows "store_inv s' \<and> (isl res \<longrightarrow> s' = s)"
proof (cases "queryById q s")
  case (Pair qr s1)
  show ?thesis
  proof (cases qr)
    case (Inl e)
    with Pair run queryById_Inl[of q s e s1] inv show ?thesis
      by (auto simp: addOrUpdateNodeProperty_def)
  next
    case (Inr r)
    with Pair have q: "queryById q s = (Inr r, s1)" by simp
    from queryById_Inr[OF q] have s1: "s1 = s" by simp
    from inv have ok: "index_sets_ok s" and n: "nodes_ok s" and c: "consistent s"
      by (auto simp: store_inv_def)
    from queryById_node[OF c q] have r: "r \<in> set (nodes s)" .
    with n have rl: "r < length (objects s)" and dk: "distinct (map fst (properties (deref s r)))"
      by (auto simp: nodes_ok_def)
    show ?thesis
    proof (cases "''id'' = name")
      case True
      with run q s1 inv show ?thesis
        by (auto simp: addOrUpdateNodeProperty_def addOrUpdateProperty_def)
    next
      case False
      let ?x = "(deref s r)\<lparr>properties := AList.update name val (properties (deref s r))\<rparr>"
      let ?s2 = "s\<lparr>objects := (objects s)[r := ?x]\<rparr>"
      have run2: "reIndex r ?s2 = (res, s')"
        using run q s1 False by (simp add: addOrUpdateNodeProperty_def addOrUpdateProperty_def)
      have d2: "deref ?s2 x = (if x = r then ?x else deref s x)" for x
        using rl by (simp add: deref_update)
      have ok2: "index_sets_ok ?s2" using ok index_sets_ok_cong[of ?s2 s] by simp
      have "reindexing s r (set (properties (deref s r))) True"
        using consistent_iff_reindexing[OF r dk] c by simp
      then have re2: "reindexing ?s2 r (set (properties (deref s r))) True"
        by (subst reindexing_cong[of ?s2 s]) (simp_all add: d2)
      have n2: "nodes_ok ?s2"
        using n by (auto simp: nodes_ok_def d2 AList.distinct_update)
      from store_inv_reIndexed[OF ok2 re2 _ _ n2] r run2 show ?thesis by auto
    qed
  qed
qed

lemma throwIfNodeAlreadyExists_state: "snd (throwIfNodeAlreadyExists r n s) = s"
  by (simp add: throwIfNodeAlreadyExists_def Let_def)

lemma addNode_inv:
  assumes inv: "store_inv s" and run: "addNode lbl ident s = (res, s')"
  shows "store_inv s' \<and> (isl res \<longrightarrow> s' = s)"
proof (cases "throwIfNodeAlreadyExists (length (objects s)) (Node_init ident lbl) s")
  case (Pair tr s1)
  with throwIfNodeAlreadyExists_state[of "length (objects s)" "Node_init ident lbl" s]
  have s1: "s1 = s" by simp
  show ?thesis
  proof (cases tr)
    case (Inl e)
    with Pair s1 run inv show ?thesis by (auto simp: addNode_def verifyEntity_def Let_def)
  next
    case (Inr u)
    let ?r = "length (objects s)"
    let ?n = "Node_init ident lbl"
    let ?s2 = "s\<lparr>objects := objects s @ [?n], nodes := set_add ?r (nodes s)\<rparr>"
    from inv have ok: "index_sets_ok s" and n: "nodes_ok s" and c: "consistent s"
      by (auto simp: store_inv_def)
    have run2: "reIndex ?r ?s2 = (res, s')"
      using run Pair s1 Inr by (simp add: addNode_def verifyEntity_def Let_def)
    have fresh: "?r \<notin> set (nodes s)" using n by (auto simp: nodes_ok_def)
    have d2: "deref ?s2 x = (if x = ?r then ?n else deref s x)" for x
      by (auto simp: deref_def nth_append)
    have ok2: "index_sets_ok ?s2" using ok index_sets_ok_cong[of ?s2 s] by simp
    have i2: "indexed ?s2 = indexed s" by (rule indexed_cong) simp_all
    have re2: "reindexing ?s2 ?r {} False"
      using c fresh unfolding reindexing_def consistent_def i2
      by (auto simp: d2)
    have n2: "nodes_ok ?s2"
      unfolding nodes_ok_def
    proof
      fix x assume "x \<in> set (nodes ?s2)"
      then have "x = ?r \<or> x \<in> set (nodes s)" by auto
      then show "x < length (objects ?s2) \<and> distinct (map fst (properties (deref ?s2 x)))"
        using n fresh by (auto simp: nodes_ok_def deref_def nth_append Node_init_def less_Suc_eq)
    qed
    have ne: "False \<or> properties (deref ?s2 ?r) \<noteq> []"
      by (simp add: deref_def Node_init_def)
    from store_inv_reIndexed[OF ok2 re2 ne _ n2] run2 show ?thesis by auto
  qed
qed

lemma consistent_cong:
  assumes "indexeStore s' = indexeStore s" "setObjects s' = setObjects s" "nodes s' = nodes s"
    and "\<And>x. label (deref s' x) = label (deref s x)"
    and "\<And>x. properties (deref s' x) = properties (deref s x)"
  shows "consistent s' = consistent s"
proof -
  have i: "indexed s' = indexed s" by (rule indexed_cong[OF assms(1,2)])
  show ?thesis unfolding consistent_def i assms(3,4) getProperty_def assms(5) ..
qed

lemma addConnection_inv:
  assumes inv: "store_inv s" and run: "addConnection a b s = (res, s')"
  shows "store_inv s' \<and> (isl res \<longrightarrow> s' = s)"
proof (cases "b = a")
  case True
  with run inv show ?thesis by (auto simp: addConnection_def)
next
  case False
  let ?xa = "(deref s a)\<lparr>connections := set_add b (connections (deref s a))\<rparr>"
  let ?s1 = "s\<lparr>objects := (objects s)[a := ?xa]\<rparr>"
  let ?xb = "(deref ?s1 b)\<lparr>connections := set_add a (connections (deref ?s1 b))\<rparr>"
  let ?s2 = "?s1\<lparr>objects := (objects ?s1)[b := ?xb]\<rparr>"
  from run False have s': "s' = ?s2" "res = Inr ()"
    by (auto simp: addConnection_def Let_def)
  have l: "label (deref ?s2 x) = label (deref s x)" for x
    by (auto simp: deref_def nth_list_update)
  have p: "properties (deref ?s2 x) = properties (deref s x)" for x
    by (auto simp: deref_def nth_list_update)
  from inv have ok: "index_sets_ok s" and n: "nodes_ok s" and c: "consistent s"
    by (auto simp: store_inv_def)
  have "index_sets_ok ?s2" using ok index_sets_ok_cong[of ?s2 s] by simp
  moreover have "consistent ?s2" using c consistent_cong[of ?s2 s, OF _ _ _ l p] by simp
  moreover have "nodes_ok ?s2" using n unfolding nodes_ok_def p by simp
  ultimately show ?thesis using s' by (simp add: store_inv_def)
qed

lemma connect_inv:
  assumes inv: "store_inv s" and run: "connect q1 q2 s = (res, s')"
  shows "store_inv s' \<and> (isl res \<longrightarrow> s' = s)"
proof (cases "queryById q1 s")
  case (Pair r1 s1)
  then have s1: "s1 = s" using snd_queryById[of q1 s] by simp
  show ?thesis
  proof (cases r1)
    case (Inl e)
    with Pair s1 run inv show ?thesis by (auto simp: connect_def)
  next
    case a: (Inr a)
    show ?thesis
    proof (cases "queryById q2 s")
      case P2: (Pair r2 s2)
      then have s2: "s2 = s" using snd_queryById[of q2 s] by simp
      show ?thesis
      proof (cases r2)
        case (Inl e)
        with Pair s1 a P2 s2 run inv show ?thesis by (auto simp: connect_def)
      next
        case (Inr b)
        with Pair s1 a P2 s2 run have "addConnection a b s = (res, s')"
          by (simp add: connect_def)
        from addConnection_inv[OF inv this] show ?thesis .
      qed
    qed
  qed
qed

lemma store_inv_init: "store_inv GraphDB_init"
  by (simp add: store_inv_def index_sets_ok_def nodes_ok_def consistent_def indexed_def
      lookup3_def GraphDB_init_def)

lemma reachable_store_inv: "reachable s \<Longrightarrow> store_inv s"
proof (induction rule: reachable.induct)
  case init
  show ?case by (rule store_inv_init)
next
  case (addNode s lbl ident)
  then show ?case using addNode_inv[of s lbl ident] by (cases "addNode lbl ident s") auto
next
  case (addOrUpdateNodeProperty s q name val)
  then show ?case using addOrUpdateNodeProperty_inv[of s q name val]
    by (cases "addOrUpdateNodeProperty q name val s") auto
next
  case (connect s q1 q2)
  then show ?case using connect_inv[of s q1 q2] by (cases "connect q1 q2 s") auto
qed

section \<open>Lookup by id\<close>

text \<open>
  What \<open>queryById\<close> answers in a state of the store: the parser's exception for a
  malformed qualifier, "Invalid query format" for a key other than \<open>id\<close>, "No nodes
  found" when no node of the label has the id, and otherwise a node of the store with
  that label and that id. A node added by \<open>addNode\<close> is found under its label and id.
\<close>

lemma queryById_outcomes:
  assumes "reachable s"
  shows "case parseQueryQualifier q of
           Inl e \<Rightarrow> queryById q s = (Inl e, s)
         | Inr (l, k, v) \<Rightarrow>
             if k \<noteq> Some ''id'' then queryById q s = (Inl InvalidQueryFormat, s)
             else if {r \<in> set (nodes s). label (deref s r) = l \<and> getProperty (deref s r) ''id'' = v} = {}
             then queryById q s = (Inl NoNodesFound, s)
             else \<exists>r. queryById q s = (Inr r, s) \<and> r \<in> set (nodes s) \<and>
                    label (deref s r) = l \<and> getProperty (deref s r) ''id'' = v"
proof (cases "parseQueryQualifier q")
  case (Inl e)
  then show ?thesis by (simp add: queryById_def)
next
  case (Inr t)
  obtain l k v where t: "t = (l, k, v)" by (cases t)
  from reachable_store_inv[OF assms] have c: "consistent s" by (simp add: store_inv_def)
  show ?thesis
  proof (cases "k = Some ''id''")
    case False
    with Inr t show ?thesis by (simp add: queryById_def)
  next
    case True
    with Inr t have "v \<noteq> None"
      by (auto simp: parseQueryQualifier_def Let_def split: if_splits sum.splits)
    then obtain w where w: "v = Some w" by auto
    from c have ix: "indexed s l (Some ''id'') (Some w) =
        {r \<in> set (nodes s). label (deref s r) = l \<and> getProperty (deref s r) ''id'' = Some w}"
      by (simp add: consistent_def)
    show ?thesis
    proof (cases "lookup3 s l (Some ''id'') (Some w)")
      case None
      with ix Inr t True w show ?thesis by (simp add: queryById_def indexed_def)
    next
      case (Some a)
      show ?thesis
      proof (cases "the_set s a")
        case Nil
        with Some ix Inr t True w show ?thesis by (simp add: queryById_def indexed_def)
      next
        case (Cons r rs)
        with Some ix have "r \<in> {r \<in> set (nodes s). label (deref s r) = l \<and> getProperty (deref s r) ''id'' = Some w}"
          by (auto simp: indexed_def)
        moreover from Cons Some Inr t True w have "queryById q s = (Inr r, s)"
          by (simp add: queryById_def)
        ultimately show ?thesis using Inr t True w by auto
      qed
    qed
  qed
qed

lemma addIndex_items_fields:
  "index_sets_ok s0 \<Longrightarrow>
   \<exists>s''. addIndex_items l r items s0 = (Inr (), s'') \<and> index_sets_ok s'' \<and>
     objects s'' = objects s0 \<and> nodes s'' = nodes s0"
proof (induction items arbitrary: s0)
  case Nil
  then show ?case by simp
next
  case (Cons kv items)
  obtain k v where kv: "kv = (k, v)" by (cases kv)
  from index_effect[OF Cons.prems, of l k v r] obtain s1 where
    s1: "index l (Some k) (Some v) r s0 = (Inr (), s1)" "index_sets_ok s1"
      "objects s1 = objects s0" "nodes s1 = nodes s0" by blast
  from Cons.IH[OF s1(2)] obtain s'' where
    "addIndex_items l r items s1 = (Inr (), s'')" "index_sets_ok s''"
    "objects s'' = objects s1" "nodes s'' = nodes s1" by blast
  with s1 kv show ?case by simp
qed

lemma reIndex_fields:
  assumes "index_sets_ok s" "reIndex r s = (res, s')"
  shows "objects s' = objects s \<and> nodes s' = nodes s"
proof -
  have "index_sets_ok (unIndex r s)" using assms(1) by (simp add: unIndex_ok)
  from addIndex_items_fields[OF this, of "label (deref (unIndex r s) r)" r
      "properties (deref (unIndex r s) r)"] assms(2)
  show ?thesis by (auto simp: reIndex_def addIndex_def)
qed

lemma addNode_stores_node:
  assumes inv: "store_inv s" and run: "addNode lbl ident s = (Inr u, s')"
  shows "objects s' = objects s @ [Node_init ident lbl] \<and>
         nodes s' = set_add (length (objects s)) (nodes s)"
proof -
  let ?s2 = "s\<lparr>objects := objects s @ [Node_init ident lbl],
               nodes := set_add (length (objects s)) (nodes s)\<rparr>"
  have t: "snd (throwIfNodeAlreadyExists (length (objects s)) (Node_init ident lbl) s) = s"
    by (rule throwIfNodeAlreadyExists_state)
  from run t have r2: "reIndex (length (objects s)) ?s2 = (Inr u, s')"
    by (cases "throwIfNodeAlreadyExists (length (objects s)) (Node_init ident lbl) s")
      (auto simp: addNode_def verifyEntity_def Let_def split: sum.splits)
  have ok2: "index_sets_ok ?s2"
    using inv index_sets_ok_cong[of ?s2 s] by (simp add: store_inv_def)
  from reIndex_fields[OF ok2 r2] show ?thesis by simp
qed

lemma addNode_then_queryById:
  assumes "reachable s" and run: "addNode lbl ident s = (Inr u, s')"
    and p: "parseQueryQualifier q = Inr (lbl, Some ''id'', Some ident)"
  shows "\<exists>r. queryById q s' = (Inr r, s') \<and> r \<in> set (nodes s') \<and>
     label (deref s' r) = lbl \<and> getId (deref s' r) = Inr ident"
proof -
  from run have s': "s' = snd (addNode lbl ident s)" by simp
  have r': "reachable s'" unfolding s' by (rule reachable.addNode[OF assms(1)])
  have g: "getProperty n ''id'' = Some ident \<Longrightarrow> getId n = Inr ident" for n
    by (simp add: getId_def getProperty_def)
  from addNode_stores_node[OF reachable_store_inv[OF assms(1)] run]
  have "length (objects s) \<in> {r \<in> set (nodes s'). label (deref s' r) = lbl \<and>
      getProperty (deref s' r) ''id'' = Some ident}"
    by (simp add: deref_def Node_init_def getProperty_def)
  then have ne: "{r \<in> set (nodes s'). label (deref s' r) = lbl \<and>
      getProperty (deref s' r) ''id'' = Some ident} \<noteq> {}"
    by blast
  from queryById_outcomes[OF r', of q] have "\<exists>r. queryById q s' = (Inr r, s') \<and>
      r \<in> set (nodes s') \<and> label (deref s' r) = lbl \<and> getProperty (deref s' r) ''id'' = Some ident"
    unfolding p using ne by (simp only: sum.case prod.case if_False not_not refl)
  then show ?thesis using g by blast
qed

section \<open>The claims about the store\<close>

lemma reachable_steps: "reachable s \<Longrightarrow> list_all (\<lambda>f. \<forall>s. reachable s \<longrightarrow> reachable (snd (f s))) ops \<Longrightarrow> reachable (steps ops s)"
  by (induction ops arbitrary: s) (simp_all add: steps_def)

lemma reachable_chain_store: "reachable chain_store"
  unfolding chain_store_def
  by (rule reachable_steps) (auto intro: reachable.intros)

lemma reachable_family_store: "reachable family_store"
  unfolding family_store_def
  by (rule reachable_steps) (auto intro: reachable.intros)


lemma reachable_duplicate_store: "reachable duplicate_store"
  unfolding duplicate_store_def
  by (rule reachable_steps) (auto intro: reachable.intros)



lemma queryById_cong:
  assumes "indexeStore s' = indexeStore s" "setObjects s' = setObjects s"
  shows "queryById q s' = (fst (queryById q s), s')"
proof -
  have "lookup3 s' = lookup3 s" by (rule lookup3_cong[OF assms(1)])
  then show ?thesis
    by (simp add: queryById_def the_set_def assms(2) split: sum.splits option.splits list.splits)
qed

lemma addConnection_fields:
  "addConnection a b s = (res, s') \<Longrightarrow>
   indexeStore s' = indexeStore s \<and> setObjects s' = setObjects s \<and> nodes s' = nodes s \<and>
   allIndexSets s' = allIndexSets s"
  by (auto simp: addConnection_def Let_def split: if_splits)

lemma addConnection_member:
  assumes "addConnection a b s = (Inr u, s')" "a < length (objects s)" "b < length (objects s)"
  shows "a \<noteq> b \<and> b \<in> set (connections (deref s' a)) \<and> a \<in> set (connections (deref s' b))"
  using assms
  by (auto simp: addConnection_def Let_def deref_def nth_list_update split: if_splits)

lemma addConnection_idem:
  assumes "a \<noteq> b" "b \<in> set (connections (deref s a))" "a \<in> set (connections (deref s b))"
  shows "addConnection a b s = (Inr (), s)"
proof -
  have x: "(deref s a)\<lparr>connections := set_add b (connections (deref s a))\<rparr> = deref s a"
    using assms(2) by (simp add: set_add_def)
  have 1: "s\<lparr>objects := (objects s)[a := deref s a]\<rparr> = s"
    by (cases "a < length (objects s)") (simp_all add: deref_def list_update_beyond)
  have y: "(deref s b)\<lparr>connections := set_add a (connections (deref s b))\<rparr> = deref s b"
    using assms(3) by (simp add: set_add_def)
  have 2: "s\<lparr>objects := (objects s)[b := deref s b]\<rparr> = s"
    by (cases "b < length (objects s)") (simp_all add: deref_def list_update_beyond)
  show ?thesis
    using assms(1) by (simp add: addConnection_def Let_def x 1 y 2)
qed

text \<open>
  Claim C5. In every state of the store, a \<open>connect\<close> that returns has resolved its two
  qualifiers to two different nodes, and leaves each in the connection set of the other.
  A second \<open>connect\<close> of the same pair, in either order, returns and leaves the whole
  state, the two connection sets included, as it was.
\<close>

theorem connect_symmetric_idempotent:
  assumes "reachable s" and "connect q1 q2 s = (Inr (), s')"
  shows "\<exists>a b. queryById q1 s = (Inr a, s) \<and> queryById q2 s = (Inr b, s) \<and> a \<noteq> b \<and>
     b \<in> set (connections (deref s' a)) \<and> a \<in> set (connections (deref s' b)) \<and>
     connect q1 q2 s' = (Inr (), s') \<and> connect q2 q1 s' = (Inr (), s')"
proof -
  from reachable_store_inv[OF assms(1)] have n: "nodes_ok s" and c: "consistent s"
    by (simp_all add: store_inv_def)
  from assms(2) obtain a s1 where q1: "queryById q1 s = (Inr a, s1)"
    by (cases "queryById q1 s") (auto simp: connect_def split: sum.splits)
  then have s1: "s1 = s" using queryById_Inr by blast
  from assms(2) q1 s1 obtain b s2 where q2: "queryById q2 s = (Inr b, s2)"
    by (cases "queryById q2 s") (auto simp: connect_def split: sum.splits)
  then have s2: "s2 = s" using queryById_Inr by blast
  from assms(2) q1 s1 q2 s2 have ac: "addConnection a b s = (Inr (), s')"
    by (simp add: connect_def)
  from queryById_node[OF c q1] queryById_node[OF c q2] n
  have lt: "a < length (objects s)" "b < length (objects s)" by (auto simp: nodes_ok_def)
  from addConnection_member[OF ac lt]
  have m: "a \<noteq> b" "b \<in> set (connections (deref s' a))" "a \<in> set (connections (deref s' b))"
    by simp_all
  from addConnection_fields[OF ac] have f: "indexeStore s' = indexeStore s" "setObjects s' = setObjects s"
    by simp_all
  have q1': "queryById q1 s' = (Inr a, s')" using queryById_cong[OF f, of q1] q1 by simp
  have q2': "queryById q2 s' = (Inr b, s')" using queryById_cong[OF f, of q2] q2 by simp
  have "connect q1 q2 s' = (Inr (), s')"
    using q1' q2' addConnection_idem[OF m] by (simp add: connect_def)
  moreover have "connect q2 q1 s' = (Inr (), s')"
    using q1' q2' addConnection_idem[OF m(1)[symmetric] m(3) m(2)] by (simp add: connect_def)
  ultimately show ?thesis using q1 s1 q2 s2 m by blast
qed

theorem connect_symmetric_idempotent_witness:
  "reachable family_store \<and>
   fst (connect ''Person:merin'' ''Person:norah'' family_store) = Inr () \<and>
   fst (queryById ''Person:merin'' family_store) = Inr 1 \<and>
   fst (queryById ''Person:norah'' family_store) = Inr 2 \<and>
   (\<exists>s'. connect ''Person:merin'' ''Person:norah'' family_store = (Inr (), s') \<and>
     2 \<in> set (connections (deref s' 1)) \<and> 1 \<in> set (connections (deref s' 2)) \<and>
     connect ''Person:merin'' ''Person:norah'' s' = (Inr (), s') \<and>
     connect ''Person:norah'' ''Person:merin'' s' = (Inr (), s'))"
proof -
  have r: "fst (connect ''Person:merin'' ''Person:norah'' family_store) = Inr ()" by code_simp
  have a: "fst (queryById ''Person:merin'' family_store) = Inr 1" by code_simp
  have b: "fst (queryById ''Person:norah'' family_store) = Inr 2" by code_simp
  from r obtain s' where s': "connect ''Person:merin'' ''Person:norah'' family_store = (Inr (), s')"
    by (cases "connect ''Person:merin'' ''Person:norah'' family_store") simp
  from connect_symmetric_idempotent[OF reachable_family_store s'] a b s' r reachable_family_store
  show ?thesis by auto
qed

text \<open>
  Claim C6. In every state of the store, an operation that raises leaves the state as it
  was: \<open>addNode\<close>, \<open>addOrUpdateNodeProperty\<close> (the reserved property \<open>id\<close> included),
  \<open>connect\<close> (a node with itself, or a qualifier that finds no node, included),
  \<open>queryById\<close>, \<open>query\<close>, \<open>graphQuery\<close> and \<open>bfs\<close>. Every \<open>raise\<close> of a mutating operation
  comes before its first write, and \<open>reIndex\<close> cannot raise on a store in this shape.
\<close>

theorem failed_operation_leaves_store:
  assumes "reachable s"
  shows "(\<forall>l i e s'. addNode l i s = (Inl e, s') \<longrightarrow> s' = s) \<and>
     (\<forall>q n v e s'. addOrUpdateNodeProperty q n v s = (Inl e, s') \<longrightarrow> s' = s) \<and>
     (\<forall>q1 q2 e s'. connect q1 q2 s = (Inl e, s') \<longrightarrow> s' = s) \<and>
     (\<forall>q e s'. queryById q s = (Inl e, s') \<longrightarrow> s' = s) \<and>
     (\<forall>q e s'. query q s = (Inl e, s') \<longrightarrow> s' = s) \<and>
     (\<forall>q c d e s'. graphQuery q c d s = (Inl e, s') \<longrightarrow> s' = s) \<and>
     (\<forall>n c d e s'. bfs n c d s = (Inl e, s') \<longrightarrow> s' = s)"
proof -
  note inv = reachable_store_inv[OF assms]
  have 1: "s' = s" if "addNode l i s = (Inl e, s')" for l i e s'
    using addNode_inv[OF inv that] by simp
  have 2: "s' = s" if "addOrUpdateNodeProperty q n v s = (Inl e, s')" for q n v e s'
    using addOrUpdateNodeProperty_inv[OF inv that] by simp
  have 3: "s' = s" if "connect q1 q2 s = (Inl e, s')" for q1 q2 e s'
    using connect_inv[OF inv that] by simp
  have 4: "s' = s" if "queryById q s = (Inl e, s')" for q e s'
    using that snd_queryById[of q s] by simp
  have 5: "s' = s" if "query q s = (Inl e, s')" for q e s'
    using that snd_query[of q s] by simp
  have 6: "s' = s" if "graphQuery q c d s = (Inl e, s')" for q c d e s'
    using that snd_graphQuery[of q c d s] by simp
  have 7: "s' = s" if "bfs n c d s = (Inl e, s')" for n c d e s'
    using that snd_bfs[of n c d s] by simp
  from 1 2 3 4 5 6 7 show ?thesis by blast
qed

theorem failed_operation_leaves_store_witness:
  "reachable chain_store \<and>
   addOrUpdateNodeProperty ''Person:A'' ''id'' ''Z'' chain_store = (Inl ReservedPropertyId, chain_store) \<and>
   connect ''Person:A'' ''Person:A'' chain_store = (Inl CannotConnectOneself, chain_store) \<and>
   connect ''Person:A'' ''Person:Z'' chain_store = (Inl NoNodesFound, chain_store) \<and>
   queryById ''Person:gender=Male'' chain_store = (Inl InvalidQueryFormat, chain_store) \<and>
   graphQuery ''Person:A'' (Some ''a=b=c'') 2 chain_store = (Inl InvalidQuery, chain_store)"
proof -
  note T = failed_operation_leaves_store[OF reachable_chain_store]
  have 1: "fst (addOrUpdateNodeProperty ''Person:A'' ''id'' ''Z'' chain_store) = Inl ReservedPropertyId"
    by code_simp
  have 2: "fst (connect ''Person:A'' ''Person:A'' chain_store) = Inl CannotConnectOneself"
    by code_simp
  have 3: "fst (connect ''Person:A'' ''Person:Z'' chain_store) = Inl NoNodesFound"
    by code_simp
  have 4: "fst (queryById ''Person:gender=Male'' chain_store) = Inl InvalidQueryFormat"
    by code_simp
  have 5: "fst (graphQuery ''Person:A'' (Some ''a=b=c'') 2 chain_store) = Inl InvalidQuery"
    by code_simp
  have p: "x = (Inl e, s)" if "fst x = Inl e" "\<And>s'. x = (Inl e, s') \<Longrightarrow> s' = s"
    for x :: "'a outcome" and e s
    using that by (cases x) auto
  note T2 = T[THEN conjunct2, THEN conjunct1, rule_format]
  note T3 = T[THEN conjunct2, THEN conjunct2, THEN conjunct1, rule_format]
  note T4 = T[THEN conjunct2, THEN conjunct2, THEN conjunct2, THEN conjunct1, rule_format]
  note T6 = T[THEN conjunct2, THEN conjunct2, THEN conjunct2, THEN conjunct2, THEN conjunct2,
      THEN conjunct1, rule_format]
  have "addOrUpdateNodeProperty ''Person:A'' ''id'' ''Z'' chain_store = (Inl ReservedPropertyId, chain_store)"
    by (rule p[OF 1]) (rule T2)
  moreover have "connect ''Person:A'' ''Person:A'' chain_store = (Inl CannotConnectOneself, chain_store)"
    by (rule p[OF 2]) (rule T3)
  moreover have "connect ''Person:A'' ''Person:Z'' chain_store = (Inl NoNodesFound, chain_store)"
    by (rule p[OF 3]) (rule T3)
  moreover have "queryById ''Person:gender=Male'' chain_store = (Inl InvalidQueryFormat, chain_store)"
    by (rule p[OF 4]) (rule T4)
  moreover have "graphQuery ''Person:A'' (Some ''a=b=c'') 2 chain_store = (Inl InvalidQuery, chain_store)"
    by (rule p[OF 5]) (rule T6)
  ultimately show ?thesis using reachable_chain_store by simp
qed

text \<open>
  Claim C1. \<open>addNode('Person', 'eljo')\<close> twice on the empty store: the second call returns
  as the first does, and the store holds two nodes with the label \<open>Person\<close> and the id
  \<open>eljo\<close>. The f-string of line 264 formats the label with the id as the format
  specification; \<open>format('Person', 'eljo')\<close> raises, the bare \<open>except\<close> swallows it, and
  \<open>exists\<close> stays false. \<open>queryById('Person:eljo')\<close> returns a node whose id is \<open>eljo\<close>.
\<close>

theorem addNode_duplicate_accepted:
  "py_format ''Person'' ''eljo'' = None \<and>
   fst (addNode ''Person'' ''eljo'' GraphDB_init) = Inr () \<and>
   fst (addNode ''Person'' ''eljo'' (snd (addNode ''Person'' ''eljo'' GraphDB_init))) = Inr () \<and>
   nodes duplicate_store = [0, 1] \<and>
   map label (objects duplicate_store) = [''Person'', ''Person''] \<and>
   map properties (objects duplicate_store) = [[(''id'', ''eljo'')], [(''id'', ''eljo'')]] \<and>
   fst (queryById ''Person:eljo'' duplicate_store) = Inr 0"
  by code_simp

text \<open>
  Claim C4. On the store the two calls of claim C1 leave, the index set of
  \<open>Person\<close>, \<open>id\<close>, \<open>eljo\<close> holds two nodes, and \<open>queryById('Person:eljo')\<close> returns the one
  its iteration yields first. A qualifier whose key is not \<open>id\<close> raises the "Invalid query
  format" exception, an id no node has raises "No nodes found".
\<close>

theorem queryById_two_nodes_one_id:
  "fst (query (Some ''Person:eljo'') duplicate_store) = Inr [0, 1] \<and>
   map getId (objects duplicate_store) = [Inr ''eljo'', Inr ''eljo''] \<and>
   map label (objects duplicate_store) = [''Person'', ''Person''] \<and>
   fst (queryById ''Person:eljo'' duplicate_store) = Inr 0 \<and>
   fst (queryById ''Person'' duplicate_store) = Inl InvalidQueryFormat \<and>
   fst (queryById ''Person:name=eljo'' duplicate_store) = Inl InvalidQueryFormat \<and>
   fst (queryById ''Person:merin'' duplicate_store) = Inl NoNodesFound"
  by code_simp


end
